theory Spec2Isabelle
  imports Main "HOL-Library.Multiset"
begin

section \<open>Action metadata and key normalisation (packages/core/src/action.ts)\<close>

text \<open>
  The target of a metadata record is an opaque reference in the source: the class
  (constructor function) for a class-level action or a static method, the prototype of
  the class for an instance method. Both are identified here by the name of the class.
\<close>

datatype Target = ClassTarget string | PrototypeTarget string

text \<open>\<^verbatim>\<open>interface ActionMetadata { group; fulfills; dependsOn; target }\<close>\<close>

record ActionMetadata =
  group :: string
  fulfills :: "string list"
  dependsOn :: "string list"
  target :: Target

text \<open>
  An injection as the Dependency Extractor reads it: the binding key and the optional
  metadata object, of which only the \<^verbatim>\<open>setter\<close> flag is inspected.
\<close>

record InjectionMetadata =
  setter :: bool

record Injection =
  bindingKey :: string
  metadata :: "InjectionMetadata option"

text \<open>
  \<^verbatim>\<open>k.split('#')\<close>: the segments of \<open>k\<close> between occurrences of the separator. The
  result is never empty (the empty string splits into one empty segment).
\<close>

fun js_split :: "char \<Rightarrow> string \<Rightarrow> string list" where
  "js_split sep [] = [[]]"
| "js_split sep (c # cs) =
     (if c = sep then [] # js_split sep cs
      else (case js_split sep cs of
              [] \<Rightarrow> [[c]]
            | seg # segs \<Rightarrow> (c # seg) # segs))"

text \<open>\<^verbatim>\<open>k.split('#')[0]\<close>; the first segment always exists, see \<open>js_split_not_Nil\<close>.\<close>

definition first_segment :: "string \<Rightarrow> string" where
  "first_segment k = (case js_split (CHR ''#'') k of [] \<Rightarrow> [] | seg # _ \<Rightarrow> seg)"

text \<open>
  \<^verbatim>\<open>new Set(keys)\<close> keeps its elements in insertion order and ignores an element that
  is already present; \<^verbatim>\<open>Array.from\<close> lists them in that order.
\<close>

definition set_add :: "'a list \<Rightarrow> 'a \<Rightarrow> 'a list" where
  "set_add s x = (if x \<in> set s then s else s @ [x])"

definition array_from_new_Set :: "'a list \<Rightarrow> 'a list" where
  "array_from_new_Set keys = foldl set_add [] keys"

text \<open>
  \<^verbatim>\<open>function normalizeKeys(keys?: string[])\<close>: an absent argument is \<open>None\<close>
  (\<^verbatim>\<open>keys || []\<close>; an array, even an empty one, is truthy).
\<close>

definition normalizeKeys :: "string list option \<Rightarrow> string list" where
  "normalizeKeys keys =
     (let keys1 = (case keys of None \<Rightarrow> [] | Some ks \<Rightarrow> ks);
          keys2 = map first_segment keys1;
          keys3 = array_from_new_Set keys2
      in keys3)"

text \<open>\<^verbatim>\<open>p.metadata && p.metadata.setter\<close>\<close>

definition is_setter :: "Injection \<Rightarrow> bool" where
  "is_setter p = (case metadata p of None \<Rightarrow> False | Some md \<Rightarrow> setter md)"

text \<open>
  \<^verbatim>\<open>populateActionMetadata(actionMetadata, injections)\<close> assigns the two fields of the
  record it is given and returns it; the model returns the updated record. It is used
  for class records and for method records alike, hence the record scheme.
\<close>

definition populateActionMetadata ::
  "'a ActionMetadata_scheme \<Rightarrow> Injection list \<Rightarrow> 'a ActionMetadata_scheme" where
  "populateActionMetadata actionMetadata injections =
     (let dependsOn1 = map bindingKey (filter (\<lambda>p. \<not> is_setter p) injections);
          dependsOn2 = dependsOn1 @ dependsOn actionMetadata;
          actionMetadata1 = actionMetadata\<lparr>dependsOn := normalizeKeys (Some dependsOn2)\<rparr>;
          fulfills1 = map bindingKey (filter is_setter injections);
          fulfills2 = fulfills1 @ fulfills actionMetadata1;
          actionMetadata2 = actionMetadata1\<lparr>fulfills := normalizeKeys (Some fulfills2)\<rparr>
      in actionMetadata2)"

text \<open>
  The Dependency Extractor in the words of the specification: a key is taken up to its
  \<open>#\<close> qualifier, and a list is deduplicated keeping the first occurrence of each key.
\<close>

definition strip_qualifier :: "string \<Rightarrow> string" where
  "strip_qualifier k = takeWhile (\<lambda>c. c \<noteq> CHR ''#'') k"

fun first_seen :: "'a list \<Rightarrow> 'a list \<Rightarrow> 'a list" where
  "first_seen seen [] = []"
| "first_seen seen (x # xs) =
     (if x \<in> set seen then first_seen seen xs else x # first_seen (x # seen) xs)"

definition dedup_first_seen :: "'a list \<Rightarrow> 'a list" where
  "dedup_first_seen xs = first_seen [] xs"

section \<open>Metadata objects and the metadata registry\<close>

text \<open>
  A class is identified by its name (\<^verbatim>\<open>Constructor<any>\<close>; \<^verbatim>\<open>cls.name\<close>). Objects that
  the source shares and mutates are kept in a store and named by their address.
\<close>

type_synonym Constructor = string

type_synonym ref = nat

text \<open>
  \<^verbatim>\<open>interface ActionMethod extends ActionMetadata\<close>. The field \<^verbatim>\<open>method\<close> is called
  \<open>method_name\<close> here; an absent \<^verbatim>\<open>bindsReturnValueAs\<close> or \<^verbatim>\<open>actionClass\<close> is \<open>None\<close>, and
  \<^verbatim>\<open>actionClass\<close> is a reference to a class descriptor object.
\<close>

record ActionMethod = ActionMetadata +
  method_name :: string
  bindsReturnValueAs :: "string option"
  actionClass :: "ref option"
  isStatic :: bool

text \<open>
  \<^verbatim>\<open>interface ActionClass extends ActionMetadata { methods }\<close>, as \<^verbatim>\<open>inspectAction\<close> builds
  it: \<^verbatim>\<open>Object.assign({}, m)\<close> copies the four metadata fields of \<open>m\<close> when the class has
  class-level metadata and copies nothing when \<open>m\<close> is \<^verbatim>\<open>undefined\<close>; the four fields
  are therefore present together (\<open>Some\<close>) or absent together (\<open>None\<close>). \<open>methods\<close> maps
  a method name to the method's metadata object, in the order of the object's keys.
\<close>

record ActionClass =
  class_metadata :: "ActionMetadata option"
  methods :: "(string \<times> ref) list"

text \<open>
  The store: what \<^verbatim>\<open>Reflector.getMetadata(ACTION_KEY, cls)\<close> and
  \<^verbatim>\<open>Reflector.getMetadata(ACTION_METHODS_KEY, cls.prototype)\<close> return for each class, the
  method metadata objects (shared by the registry and by every descriptor made from it),
  and the class descriptor objects created by \<^verbatim>\<open>inspectAction\<close>. A new object gets the
  next free address of its list.
\<close>

record Store =
  classMetadata :: "Constructor \<Rightarrow> ActionMetadata option"
  methodsMetadata :: "Constructor \<Rightarrow> (string \<times> ref) list option"
  methodObjects :: "ActionMethod list"
  classObjects :: "ActionClass list"

datatype Error = TypeError | DependenciesError | Thrown string

text \<open>\<^verbatim>\<open>descriptor.methods[m].actionClass = descriptor\<close> on the method object at \<open>r\<close>.\<close>

definition set_actionClass :: "ref \<Rightarrow> ref \<Rightarrow> Store \<Rightarrow> Store" where
  "set_actionClass descriptor r st =
     st\<lparr>methodObjects := (methodObjects st)
        [r := (methodObjects st ! r)\<lparr>actionClass := Some descriptor\<rparr>]\<rparr>"

text \<open>
  \<^verbatim>\<open>inspectAction(cls)\<close>: a new descriptor object holding a copy of the class metadata
  fields and a copy of the method map (the map is copied, the method objects in it are
  not); then every method object of the map gets the new descriptor as its
  \<^verbatim>\<open>actionClass\<close>. Returns the descriptor's address.
\<close>

definition inspectAction :: "Store \<Rightarrow> Constructor \<Rightarrow> ref \<times> Store" where
  "inspectAction st cls =
     (let descriptor = length (classObjects st);
          ms = (case methodsMetadata st cls of None \<Rightarrow> [] | Some mm \<Rightarrow> mm);
          st1 = st\<lparr>classObjects := classObjects st @
                  [\<lparr>class_metadata = classMetadata st cls, methods = ms\<rparr>]\<rparr>;
          st2 = fold (\<lambda>(m, r). set_actionClass descriptor r) ms st1
      in (descriptor, st2))"

section \<open>The \<^verbatim>\<open>@action\<close> decorator (packages/core/src/action.ts)\<close>

text \<open>
  The decorator builds a metadata record and stores it with \<^verbatim>\<open>Reflector.defineMetadata\<close>.
  The \<^verbatim>\<open>Reflector\<close> belongs to the package \<^verbatim>\<open>@loopback/context\<close>, which is not among the
  files: what it returns for a class, with whatever it looks up along the prototype
  chain, is given by the two maps of the store, and how it stores a record is not
  modelled. This section embeds the construction of the record.
\<close>

text \<open>
  \<^verbatim>\<open>meta?: Partial<ActionClass | ActionMethod>\<close>: the argument of the decorator, of which
  the decorator reads four fields, each of them optional.
\<close>

record ActionOptions =
  opt_group :: "string option"
  opt_fulfills :: "string list option"
  opt_dependsOn :: "string list option"
  opt_bindsReturnValueAs :: "string option"

text \<open>
  Truthiness of an optional string (\<^verbatim>\<open>if (method)\<close>, \<^verbatim>\<open>meta.group\<close>,
  \<^verbatim>\<open>methodMeta.bindsReturnValueAs\<close>): present and not empty. An array is always truthy.
\<close>

definition truthy :: "string option \<Rightarrow> string option" where
  "truthy s = (case s of None \<Rightarrow> None | Some k \<Rightarrow> if k = [] then None else Some k)"

text \<open>\<^verbatim>\<open>meta && meta.f\<close>\<close>

definition meta_field :: "ActionOptions option \<Rightarrow> (ActionOptions \<Rightarrow> 'a option) \<Rightarrow> 'a option" where
  "meta_field meta f = (case meta of None \<Rightarrow> None | Some mt \<Rightarrow> f mt)"

text \<open>\<^verbatim>\<open>target.name\<close>: a class has its name, a prototype object has no \<^verbatim>\<open>name\<close>.\<close>

fun target_name :: "Target \<Rightarrow> string" where
  "target_name (ClassTarget n) = n"
| "target_name (PrototypeTarget n) = ''undefined''"

text \<open>
  The method branch of \<^verbatim>\<open>action(meta)(target, method)\<close>, for the method \<open>m\<close> (a non-empty
  name) of \<open>tgt\<close>: the metadata record that the decorator builds and hands to
  \<^verbatim>\<open>Reflector.defineMetadata\<close>, and the argument \<open>meta\<close> as the call leaves it. A decorated
  static method has the class as its target, an instance method the prototype of the
  class. \<open>injections\<close> is what \<^verbatim>\<open>describeInjectedArguments(target, method)\<close> of the package
  \<^verbatim>\<open>@loopback/context\<close> returns. When \<open>meta\<close> has a \<^verbatim>\<open>fulfills\<close> array, the record first
  shares it, so that \<^verbatim>\<open>actionMetadata.fulfills.push(methodMeta.bindsReturnValueAs)\<close>
  appends to the array of the caller; \<^verbatim>\<open>populateActionMetadata\<close> then gives the record
  arrays of its own.
\<close>

definition action_method ::
  "ActionOptions option \<Rightarrow> Target \<Rightarrow> string \<Rightarrow> Injection list \<Rightarrow> ActionMethod \<times> ActionOptions option" where
  "action_method meta tgt m injections =
     (let (group0, isStatic0) =
            (case tgt of
               ClassTarget c \<Rightarrow> (''method:'' @ c @ ''.'' @ m, True)
             | PrototypeTarget c \<Rightarrow> (''method:'' @ c @ ''.prototype.'' @ m, False));
          group1 = (case truthy (meta_field meta opt_group) of None \<Rightarrow> group0 | Some g \<Rightarrow> g);
          actionMetadata0 =
            \<lparr>group = group1, fulfills = [], dependsOn = [], target = tgt, method_name = m,
             bindsReturnValueAs = None, actionClass = None, isStatic = isStatic0\<rparr>;
          actionMetadata1 =
            (case meta_field meta opt_fulfills of
               None \<Rightarrow> actionMetadata0
             | Some f \<Rightarrow> actionMetadata0\<lparr>fulfills := f\<rparr>);
          actionMetadata2 =
            (case meta_field meta opt_dependsOn of
               None \<Rightarrow> actionMetadata1
             | Some d \<Rightarrow> actionMetadata1\<lparr>dependsOn := d\<rparr>);
          (actionMetadata3, meta1) =
            (case truthy (meta_field meta opt_bindsReturnValueAs) of
               None \<Rightarrow> (actionMetadata2, meta)
             | Some k \<Rightarrow>
                 (actionMetadata2\<lparr>bindsReturnValueAs := Some k,
                                   fulfills := fulfills actionMetadata2 @ [k]\<rparr>,
                  (case meta_field meta opt_fulfills of
                     None \<Rightarrow> meta
                   | Some f \<Rightarrow> map_option (\<lambda>mt. mt\<lparr>opt_fulfills := Some (f @ [k])\<rparr>) meta)))
      in (populateActionMetadata actionMetadata3 injections, meta1))"

text \<open>
  The class branch (no method name): the record that the decorator builds and hands to
  \<^verbatim>\<open>Reflector.defineMetadata\<close>; \<open>injections\<close> is the concatenation of
  \<^verbatim>\<open>describeInjectedArguments(target)\<close> and the values of
  \<^verbatim>\<open>describeInjectedProperties(target.prototype)\<close>. This branch appends to no array of
  the caller.
\<close>

definition action_class :: "ActionOptions option \<Rightarrow> Target \<Rightarrow> Injection list \<Rightarrow> ActionMetadata" where
  "action_class meta tgt injections =
     (let group0 = ''class:'' @ target_name tgt;
          group1 = (case truthy (meta_field meta opt_group) of None \<Rightarrow> group0 | Some g \<Rightarrow> g);
          actionMetadata0 = \<lparr>group = group1, fulfills = [], dependsOn = [], target = tgt\<rparr>;
          actionMetadata1 =
            (case meta_field meta opt_fulfills of
               None \<Rightarrow> actionMetadata0
             | Some f \<Rightarrow> actionMetadata0\<lparr>fulfills := f\<rparr>);
          actionMetadata2 =
            (case meta_field meta opt_dependsOn of
               None \<Rightarrow> actionMetadata1
             | Some d \<Rightarrow> actionMetadata1\<lparr>dependsOn := d\<rparr>)
      in populateActionMetadata actionMetadata2 injections)"

section \<open>The constraint graph and its sort\<close>

text \<open>
  A node of the graph is what \<^verbatim>\<open>graph.add\<close> was given: a binding key (a string), the
  registry's class metadata object of a class (\<^verbatim>\<open>sortActionClasses\<close>), a class descriptor
  or a method metadata object (\<^verbatim>\<open>sortActions\<close>).
\<close>

datatype Node = KeyNode string | ClassMetadataNode Constructor | ClassNode ref | MethodNode ref

text \<open>
  Modelled from the spec: the Topological Sequencer, which action.ts takes from the
  package \<^verbatim>\<open>topo\<close> (\<^verbatim>\<open>new Topo()\<close>, \<^verbatim>\<open>graph.add\<close>, \<^verbatim>\<open>graph.nodes\<close>, \<^verbatim>\<open>graph._items\<close>) and whose
  source is not among the files. Every node carries its insertion sequence number, the
  list of group names it must precede, the list of group names it must follow, and its
  own group. The sort is Kahn's algorithm: the next node of the order is, among the
  nodes that no remaining node must precede, the one inserted first; when nodes remain
  and none of them is free, the constraints are contradictory and the sort fails.
\<close>

record Item =
  seq :: nat
  before :: "string list"
  after :: "string list"
  item_group :: string
  node :: Node

text \<open>
  Modelled from the spec: the graph object, with the items in sorted order
  (\<^verbatim>\<open>graph._items\<close>) and the nodes in that order (\<^verbatim>\<open>graph.nodes\<close>).
\<close>

record Graph =
  items :: "Item list"
  nodes :: "Node list"

text \<open>Modelled from the spec: \<^verbatim>\<open>new Topo()\<close>, the graph without nodes.\<close>

definition new_Topo :: Graph where
  "new_Topo = \<lparr>items = [], nodes = []\<rparr>"

text \<open>
  Modelled from the spec: \<open>precedes a b\<close> holds when a constraint demands that \<open>a\<close> is
  placed before \<open>b\<close>: \<open>a\<close> names the group of \<open>b\<close> in its before list, or \<open>b\<close> names
  the group of \<open>a\<close> in its after list.
\<close>

definition precedes :: "Item \<Rightarrow> Item \<Rightarrow> bool" where
  "precedes a b = (item_group b \<in> set (before a) \<or> item_group a \<in> set (after b))"

text \<open>Modelled from the spec: no pending node must precede \<open>v\<close>.\<close>

definition ready :: "Item list \<Rightarrow> Item \<Rightarrow> bool" where
  "ready pending v = list_all (\<lambda>u. \<not> precedes u v) pending"

text \<open>
  Modelled from the spec: the sort. \<open>None\<close> is the failure on contradictory
  constraints.
\<close>

function kahn :: "Item list \<Rightarrow> Item list option" where
  "kahn [] = Some []"
| "kahn (p # ps) =
     (case filter (ready (p # ps)) (p # ps) of
        [] \<Rightarrow> None
      | r # rs \<Rightarrow>
          (let v = arg_min_list seq (r # rs) in
           case kahn (remove1 v (p # ps)) of
             None \<Rightarrow> None
           | Some rest \<Rightarrow> Some (v # rest)))"
  by pat_completeness auto
termination
proof (relation "measure length")
  show "wf (measure length)" by simp
next
  fix p ps r rs v
  assume f: "filter (ready (p # ps)) (p # ps) = r # rs"
    and v: "v = arg_min_list seq (r # rs)"
  have "v \<in> set (r # rs)"
    unfolding v by (rule arg_min_list_in) simp
  then have "v \<in> set (filter (ready (p # ps)) (p # ps))"
    by (simp only: f)
  then have "v \<in> set (p # ps)"
    using filter_is_subset [of "ready (p # ps)" "p # ps"] by blast
  then have "length (remove1 v (p # ps)) < length (p # ps)"
    by (simp only: length_remove1) simp
  then show "(remove1 v (p # ps), p # ps) \<in> measure length"
    by simp
qed

declare kahn.simps [simp del]

text \<open>
  Modelled from the spec: \<^verbatim>\<open>graph.add(node, {group, before, after})\<close>; the node is
  inserted with the next sequence number and the graph is sorted again; a sort that
  fails raises an error. After a successful insertion \<open>items\<close> is in sorted order and
  \<open>nodes\<close> lists the nodes in that order.
\<close>

definition add :: "Graph \<Rightarrow> Node \<Rightarrow> string \<Rightarrow> string list \<Rightarrow> string list \<Rightarrow> Error + Graph" where
  "add graph n g bef aft =
     (let item = \<lparr>seq = length (items graph), before = bef, after = aft,
                  item_group = g, node = n\<rparr>
      in case kahn (items graph @ [item]) of
           None \<Rightarrow> Inl DependenciesError
         | Some sorted_items \<Rightarrow> Inr \<lparr>items = sorted_items, nodes = map node sorted_items\<rparr>)"

section \<open>The Graph Builder (packages/core/src/action.ts)\<close>

text \<open>\<^verbatim>\<open>const exists = (g) => graph._items.some(i => i.group === g)\<close>\<close>

definition exists_group :: "Graph \<Rightarrow> string \<Rightarrow> bool" where
  "exists_group graph g = list_ex (\<lambda>i. item_group i = g) (items graph)"

text \<open>
  The two loops of \<^verbatim>\<open>addActionToGraph\<close>:
  \<^verbatim>\<open>for (const f of keys) { if (!exists(f)) graph.add(f, {group: f}); }\<close>
\<close>

fun add_keys :: "Graph \<Rightarrow> string list \<Rightarrow> Error + Graph" where
  "add_keys graph [] = Inr graph"
| "add_keys graph (f # fs) =
     (if \<not> exists_group graph f then
        (case add graph (KeyNode f) f [] [] of
           Inl e \<Rightarrow> Inl e
         | Inr graph1 \<Rightarrow> add_keys graph1 fs)
      else add_keys graph fs)"

text \<open>
  \<^verbatim>\<open>addActionToGraph(graph, meta)\<close>; \<open>n\<close> is the reference to the object \<open>meta\<close>, which
  becomes the node, and \<open>meta\<close> is the object's current content.
\<close>

definition addActionToGraph :: "Graph \<Rightarrow> Node \<Rightarrow> 'a ActionMetadata_scheme \<Rightarrow> Error + Graph" where
  "addActionToGraph graph n meta =
     (case add_keys graph (fulfills meta) of
        Inl e \<Rightarrow> Inl e
      | Inr graph1 \<Rightarrow>
          (case add_keys graph1 (dependsOn meta) of
             Inl e \<Rightarrow> Inl e
           | Inr graph2 \<Rightarrow> add graph2 n (group meta) (fulfills meta) (dependsOn meta)))"

text \<open>\<^verbatim>\<open>class ActionGraph\<close>: \<^verbatim>\<open>this.actions = actions ? actions : graph.nodes\<close>.\<close>

record ActionGraph =
  graph :: Graph
  actions :: "Node list"

definition new_ActionGraph :: "Graph \<Rightarrow> Node list option \<Rightarrow> ActionGraph" where
  "new_ActionGraph g as =
     \<lparr>graph = g, actions = (case as of None \<Rightarrow> nodes g | Some ns \<Rightarrow> ns)\<rparr>"

text \<open>\<^verbatim>\<open>typeof n === 'object'\<close>\<close>

fun is_object :: "Node \<Rightarrow> bool" where
  "is_object (KeyNode k) = False"
| "is_object (ClassMetadataNode c) = True"
| "is_object (ClassNode d) = True"
| "is_object (MethodNode r) = True"

text \<open>
  The end of both sort functions:
  \<^verbatim>\<open>if (!removeKeys) return new ActionGraph(graph);\<close>
  \<^verbatim>\<open>return new ActionGraph(graph, graph.nodes.filter(n => typeof n === 'object'));\<close>
\<close>

definition finish :: "Graph \<Rightarrow> bool \<Rightarrow> ActionGraph" where
  "finish g removeKeys =
     (if \<not> removeKeys then new_ActionGraph g None
      else new_ActionGraph g (Some (filter is_object (nodes g))))"

text \<open>
  The loop of \<^verbatim>\<open>sortActionClasses\<close>. A class without class-level metadata gives
  \<^verbatim>\<open>meta = undefined\<close>, and reading \<^verbatim>\<open>meta.fulfills\<close> raises a TypeError.
\<close>

fun add_classes :: "Store \<Rightarrow> Graph \<Rightarrow> Constructor list \<Rightarrow> Error + Graph" where
  "add_classes st g [] = Inr g"
| "add_classes st g (cls # rest) =
     (case classMetadata st cls of
        None \<Rightarrow> Inl TypeError
      | Some meta \<Rightarrow>
          (case addActionToGraph g (ClassMetadataNode cls) meta of
             Inl e \<Rightarrow> Inl e
           | Inr g1 \<Rightarrow> add_classes st g1 rest))"

definition sortActionClasses :: "Store \<Rightarrow> Constructor list \<Rightarrow> bool \<Rightarrow> Error + ActionGraph" where
  "sortActionClasses st actionClasses removeKeys =
     (case add_classes st new_Topo actionClasses of
        Inl e \<Rightarrow> Inl e
      | Inr g \<Rightarrow> Inr (finish g removeKeys))"

text \<open>\<^verbatim>\<open>method.dependsOn.push(meta.group)\<close> on the method object at \<open>r\<close>.\<close>

definition push_dependsOn :: "ref \<Rightarrow> string \<Rightarrow> Store \<Rightarrow> Store" where
  "push_dependsOn r g st =
     st\<lparr>methodObjects := (methodObjects st)
        [r := (methodObjects st ! r)\<lparr>dependsOn := dependsOn (methodObjects st ! r) @ [g]\<rparr>]\<rparr>"

text \<open>
  The inner loop of \<^verbatim>\<open>sortActions\<close> over the methods of one descriptor. \<open>pushed\<close> is
  \<open>Some (meta.group)\<close> when \<^verbatim>\<open>includeClasses\<close> is set and \<open>None\<close> otherwise. A method
  reference that names no object stands for \<^verbatim>\<open>undefined\<close>, whose fields cannot be read.
\<close>

fun add_methods :: "string option \<Rightarrow> Store \<Rightarrow> Graph \<Rightarrow> (string \<times> ref) list \<Rightarrow> (Error + Graph) \<times> Store" where
  "add_methods pushed st g [] = (Inr g, st)"
| "add_methods pushed st g ((m, r) # ms) =
     (if r < length (methodObjects st) then
        (let st1 = (case pushed of None \<Rightarrow> st | Some cg \<Rightarrow> push_dependsOn r cg st)
         in case addActionToGraph g (MethodNode r) (methodObjects st1 ! r) of
              Inl e \<Rightarrow> (Inl e, st1)
            | Inr g1 \<Rightarrow> add_methods pushed st1 g1 ms)
      else (Inl TypeError, st))"

text \<open>
  The outer loop of \<^verbatim>\<open>sortActions\<close>. With \<^verbatim>\<open>includeClasses\<close> the descriptor is added
  first; a descriptor without the metadata fields then raises a TypeError in
  \<^verbatim>\<open>addActionToGraph\<close> (\<^verbatim>\<open>meta.fulfills\<close> is not iterable).
\<close>

fun sortActions_loop :: "bool \<Rightarrow> Store \<Rightarrow> Graph \<Rightarrow> Constructor list \<Rightarrow> (Error + Graph) \<times> Store" where
  "sortActions_loop includeClasses st g [] = (Inr g, st)"
| "sortActions_loop includeClasses st g (cls # rest) =
     (let (d, st1) = inspectAction st cls;
          meta = classObjects st1 ! d
      in if includeClasses then
           (case class_metadata meta of
              None \<Rightarrow> (Inl TypeError, st1)
            | Some cm \<Rightarrow>
                (case addActionToGraph g (ClassNode d) cm of
                   Inl e \<Rightarrow> (Inl e, st1)
                 | Inr g1 \<Rightarrow>
                     (case add_methods (Some (group cm)) st1 g1 (methods meta) of
                        (Inl e, st2) \<Rightarrow> (Inl e, st2)
                      | (Inr g2, st2) \<Rightarrow> sortActions_loop includeClasses st2 g2 rest)))
         else
           (case add_methods None st1 g (methods meta) of
              (Inl e, st2) \<Rightarrow> (Inl e, st2)
            | (Inr g2, st2) \<Rightarrow> sortActions_loop includeClasses st2 g2 rest))"

definition sortActions ::
  "Store \<Rightarrow> Constructor list \<Rightarrow> bool \<Rightarrow> bool \<Rightarrow> (Error + ActionGraph) \<times> Store" where
  "sortActions st actionClasses includeClasses removeKeys =
     (case sortActions_loop includeClasses st new_Topo actionClasses of
        (Inl e, st1) \<Rightarrow> (Inl e, st1)
      | (Inr g, st1) \<Rightarrow> (Inr (finish g removeKeys), st1))"

section \<open>The Sequence Executor (packages/core/src/action.ts)\<close>

text \<open>
  \<^verbatim>\<open>class Sequence extends Context\<close>. The binding store and the method invoker belong to
  the package \<^verbatim>\<open>@loopback/context\<close>, which is not among the files; the three operations
  that \<^verbatim>\<open>run\<close> uses are parameters of the model. Each may change the store (\<^verbatim>\<open>get\<close>
  creates and caches a singleton, an invoked method may call a setter), and \<^verbatim>\<open>get\<close> and
  \<^verbatim>\<open>invokeMethod\<close> may raise an error. A method that returns \<^verbatim>\<open>undefined\<close> returns \<open>None\<close>.
\<close>

record ('c, 'v) ContextOps =
  ctx_get :: "'c \<Rightarrow> string \<Rightarrow> (Error + 'v) \<times> 'c"
  invokeMethod :: "'v \<Rightarrow> string \<Rightarrow> 'c \<Rightarrow> (Error + 'v option) \<times> 'c"
  ctx_bind_to :: "'c \<Rightarrow> string \<Rightarrow> 'v \<Rightarrow> 'c"

record 'c Sequence =
  actionClasses :: "Constructor list"
  actionGraph :: "ActionGraph option"
  registry :: 'c

text \<open>
  \<^verbatim>\<open>buildGraph()\<close>: the graph is computed by \<^verbatim>\<open>sortActions(this.actionClasses, true, false)\<close>
  on the first call and kept.
\<close>

definition buildGraph :: "'c Sequence \<Rightarrow> Store \<Rightarrow> (Error + ActionGraph) \<times> 'c Sequence \<times> Store" where
  "buildGraph s st =
     (case actionGraph s of
        Some ag \<Rightarrow> (Inr ag, s, st)
      | None \<Rightarrow>
          (case sortActions st (actionClasses s) True False of
             (Inl e, st1) \<Rightarrow> (Inl e, s, st1)
           | (Inr ag, st1) \<Rightarrow> (Inr ag, s\<lparr>actionGraph := Some ag\<rparr>, st1)))"

text \<open>\<^verbatim>\<open>!!a.method\<close>: only a method metadata object has a \<^verbatim>\<open>method\<close> field.\<close>

fun has_method :: "Store \<Rightarrow> Node \<Rightarrow> bool" where
  "has_method st (MethodNode r) =
     (r < length (methodObjects st) \<and> method_name (methodObjects st ! r) \<noteq> [])"
| "has_method st (KeyNode k) = False"
| "has_method st (ClassMetadataNode c) = False"
| "has_method st (ClassNode d) = False"

text \<open>
  \<^verbatim>\<open>'actions.' + m.actionClass.target.name\<close>; reading a field of \<^verbatim>\<open>undefined\<close> raises a
  TypeError.
\<close>

definition instance_key :: "Store \<Rightarrow> ActionMethod \<Rightarrow> Error + string" where
  "instance_key st m =
     (case actionClass m of
        None \<Rightarrow> Inl TypeError
      | Some d \<Rightarrow>
          if d < length (classObjects st) then
            (case class_metadata (classObjects st ! d) of
               None \<Rightarrow> Inl TypeError
             | Some cm \<Rightarrow> Inr (''actions.'' @ target_name (target cm)))
          else Inl TypeError)"

text \<open>\<^verbatim>\<open>result !== undefined && m.bindsReturnValueAs\<close>, with the key to bind.\<close>

definition publishes :: "ActionMethod \<Rightarrow> 'v option \<Rightarrow> (string \<times> 'v) option" where
  "publishes m result =
     (case result of
        None \<Rightarrow> None
      | Some v \<Rightarrow>
          (case bindsReturnValueAs m of
             None \<Rightarrow> None
           | Some k \<Rightarrow> if k = [] then None else Some (k, v)))"

text \<open>
  The loop of \<^verbatim>\<open>run()\<close> over the filtered array; each \<^verbatim>\<open>await\<close> completes before the next
  statement runs, and an error raised by a step ends the loop.
\<close>

fun run_loop :: "('c, 'v) ContextOps \<Rightarrow> Store \<Rightarrow> Node list \<Rightarrow> 'c \<Rightarrow> (Error + unit) \<times> 'c" where
  "run_loop ops st [] c = (Inr (), c)"
| "run_loop ops st (MethodNode r # ms) c =
     (if r < length (methodObjects st) then
        (let m = methodObjects st ! r in
         case instance_key st m of
           Inl e \<Rightarrow> (Inl e, c)
         | Inr k \<Rightarrow>
             (case ctx_get ops c k of
                (Inl e, c1) \<Rightarrow> (Inl e, c1)
              | (Inr v, c1) \<Rightarrow>
                  (case invokeMethod ops v (method_name m) c1 of
                     (Inl e, c2) \<Rightarrow> (Inl e, c2)
                   | (Inr result, c2) \<Rightarrow>
                       (case publishes m result of
                          None \<Rightarrow> run_loop ops st ms c2
                        | Some (key, v1) \<Rightarrow> run_loop ops st ms (ctx_bind_to ops c2 key v1)))))
      else (Inl TypeError, c))"
| "run_loop ops st (KeyNode k # ms) c = (Inl TypeError, c)"
| "run_loop ops st (ClassMetadataNode cls # ms) c = (Inl TypeError, c)"
| "run_loop ops st (ClassNode d # ms) c = (Inl TypeError, c)"

definition run :: "('c, 'v) ContextOps \<Rightarrow> 'c Sequence \<Rightarrow> Store \<Rightarrow> (Error + unit) \<times> 'c Sequence \<times> Store" where
  "run ops s st =
     (case buildGraph s st of
        (Inl e, s1, st1) \<Rightarrow> (Inl e, s1, st1)
      | (Inr ag, s1, st1) \<Rightarrow>
          (case run_loop ops st1 (filter (has_method st1) (actions ag)) (registry s1) of
             (r, c) \<Rightarrow> (r, s1\<lparr>registry := c\<rparr>, st1)))"

section \<open>Observing the calls of a run\<close>

text \<open>
  To state which operations of the binding store a run performs, and in which order,
  the operations are wrapped so that each appends a record of its call and outcome to a
  log kept beside the store. \<open>run_loop\<close> itself is not changed: it is run with the
  wrapped operations.
\<close>

datatype 'v Call =
    Got string 'v
  | GetFailed string Error
  | Invoked 'v string "'v option"
  | InvokeFailed 'v string Error
  | Bound string 'v

definition logged :: "('c, 'v) ContextOps \<Rightarrow> ('c \<times> 'v Call list, 'v) ContextOps" where
  "logged ops =
     \<lparr>ctx_get = (\<lambda>(c, log) k.
        case ctx_get ops c k of
          (Inl e, c1) \<Rightarrow> (Inl e, (c1, log @ [GetFailed k e]))
        | (Inr v, c1) \<Rightarrow> (Inr v, (c1, log @ [Got k v]))),
      invokeMethod = (\<lambda>v m (c, log).
        case invokeMethod ops v m c of
          (Inl e, c1) \<Rightarrow> (Inl e, (c1, log @ [InvokeFailed v m e]))
        | (Inr result, c1) \<Rightarrow> (Inr result, (c1, log @ [Invoked v m result]))),
      ctx_bind_to = (\<lambda>(c, log) k v. (ctx_bind_to ops c k v, log @ [Bound k v]))\<rparr>"

text \<open>
  The calls of one completed step of the loop: the instance was found under key \<open>k\<close> as
  \<open>v\<close>, the method returned \<open>result\<close>, and the result was bound if \<open>publishes\<close> says so.
\<close>

fun calls :: "Store \<Rightarrow> Node \<Rightarrow> string \<times> 'v \<times> 'v option \<Rightarrow> 'v Call list" where
  "calls st (MethodNode r) (k, v, result) =
     [Got k v, Invoked v (method_name (methodObjects st ! r)) result]
     @ (case publishes (methodObjects st ! r) result of
          None \<Rightarrow> []
        | Some (key, x) \<Rightarrow> [Bound key x])"
| "calls st (KeyNode k') out = []"
| "calls st (ClassMetadataNode c) out = []"
| "calls st (ClassNode d) out = []"

text \<open>\<open>key_of st n k\<close>: \<open>k\<close> is the key under which the instance for node \<open>n\<close> is looked up.\<close>

fun key_of :: "Store \<Rightarrow> Node \<Rightarrow> string \<Rightarrow> bool" where
  "key_of st (MethodNode r) k =
     (r < length (methodObjects st) \<and> instance_key st (methodObjects st ! r) = Inr k)"
| "key_of st (KeyNode k') k = False"
| "key_of st (ClassMetadataNode c) k = False"
| "key_of st (ClassNode d) k = False"

section \<open>Properties of an order\<close>

text \<open>
  \<open>ordered\<close>: no item of the list is demanded before itself or before an item that
  stands earlier in the list. \<open>greedy\<close>: every item is, among the items from its position
  on that no item from its position on must precede, one with the least sequence number.
\<close>

fun ordered :: "Item list \<Rightarrow> bool" where
  "ordered [] = True"
| "ordered (v # rest) = (ready (v # rest) v \<and> ordered rest)"

fun greedy :: "Item list \<Rightarrow> bool" where
  "greedy [] = True"
| "greedy (v # rest) =
     (list_all (\<lambda>u. ready (v # rest) u \<longrightarrow> seq v \<le> seq u) (v # rest) \<and> greedy rest)"

definition sorted_graph :: "Graph \<Rightarrow> bool" where
  "sorted_graph g = (nodes g = map node (items g) \<and> ordered (items g) \<and> greedy (items g))"

text \<open>
  \<open>numbered\<close>: the sequence numbers of the items are the numbers below the number of
  items, each of them once.
\<close>

definition numbered :: "Graph \<Rightarrow> bool" where
  "numbered g = (mset (map seq (items g)) = mset [0..<length (items g)])"

text \<open>\<open>unconstrained its a\<close>: no constraint relates \<open>a\<close> to any item of \<open>its\<close>.\<close>

definition unconstrained :: "Item list \<Rightarrow> Item \<Rightarrow> bool" where
  "unconstrained its a = list_all (\<lambda>u. \<not> precedes a u \<and> \<not> precedes u a) its"

text \<open>
  The third clause of claim C1 as it is stated: two items that no constraint relates to
  each other stand in the order of their insertion.
\<close>

definition insertion_ordered_ties :: "Item list \<Rightarrow> bool" where
  "insertion_ordered_ties its =
     (\<forall>i j. i < j \<and> j < length its
        \<and> \<not> precedes (its ! i) (its ! j) \<and> \<not> precedes (its ! j) (its ! i)
        \<longrightarrow> seq (its ! i) < seq (its ! j))"

text \<open>
  What \<^verbatim>\<open>addActionToGraph\<close> inserts, in the words of the specification: a key node for
  every referenced key that is not yet the group of an item of the graph, each key once,
  in the order of first reference, numbered from the next sequence number on; then the
  node of the action itself.
\<close>

definition key_item :: "nat \<Rightarrow> string \<Rightarrow> Item" where
  "key_item n k = \<lparr>seq = n, before = [], after = [], item_group = k, node = KeyNode k\<rparr>"

fun key_items :: "nat \<Rightarrow> string list \<Rightarrow> Item list" where
  "key_items n [] = []"
| "key_items n (k # ks) = key_item n k # key_items (Suc n) ks"

definition new_keys :: "Graph \<Rightarrow> string list \<Rightarrow> string list" where
  "new_keys g ks = filter (\<lambda>k. k \<notin> item_group ` set (items g)) (dedup_first_seen ks)"

definition action_item :: "nat \<Rightarrow> Node \<Rightarrow> 'a ActionMetadata_scheme \<Rightarrow> Item" where
  "action_item n a meta =
     \<lparr>seq = n, before = fulfills meta, after = dependsOn meta, item_group = group meta, node = a\<rparr>"

text \<open>
  \<open>has_group g k\<close>: some item of the graph has group \<open>k\<close>. \<open>has_edges g x y\<close>: some item
  of the graph names \<open>x\<close> in its \<open>before\<close> list and \<open>y\<close> in its \<open>after\<close> list.
\<close>

definition has_group :: "Graph \<Rightarrow> string \<Rightarrow> bool" where
  "has_group g k = (k \<in> item_group ` set (items g))"

definition has_edges :: "Graph \<Rightarrow> string \<Rightarrow> string \<Rightarrow> bool" where
  "has_edges g x y = list_ex (\<lambda>i. x \<in> set (before i) \<and> y \<in> set (after i)) (items g)"

text \<open>
  \<open>store_extends st st'\<close>: what the sort functions leave unchanged in the store. The
  registry maps are the same, no method object is added or removed, every method object
  keeps its group and its \<open>fulfills\<close> list, and its \<open>dependsOn\<close> list keeps its entries.
\<close>

definition store_extends :: "Store \<Rightarrow> Store \<Rightarrow> bool" where
  "store_extends st st' =
     (classMetadata st' = classMetadata st
      \<and> methodsMetadata st' = methodsMetadata st
      \<and> length (methodObjects st') = length (methodObjects st)
      \<and> (\<forall>r < length (methodObjects st).
            group (methodObjects st' ! r) = group (methodObjects st ! r)
            \<and> fulfills (methodObjects st' ! r) = fulfills (methodObjects st ! r)
            \<and> set (dependsOn (methodObjects st ! r)) \<subseteq> set (dependsOn (methodObjects st' ! r))))"

text \<open>
  A cycle among the constraints of a list of items: a non-empty chain of items of the
  list, each demanded before the next and the last demanded before the first.
\<close>

fun chain :: "Item list \<Rightarrow> bool" where
  "chain [] = True"
| "chain [a] = True"
| "chain (a # b # rest) = (precedes a b \<and> chain (b # rest))"

definition constraint_cycle :: "Item list \<Rightarrow> Item list \<Rightarrow> bool" where
  "constraint_cycle its c = (c \<noteq> [] \<and> list_all (\<lambda>a. a \<in> set its) c \<and> chain (c @ [hd c]))"

text \<open>
  The constraints as they are declared, before any graph is built. An action declares
  its group, the groups it must precede (\<open>fulfills\<close>) and the groups it must follow
  (\<open>dependsOn\<close>); every key that it names stands for a node of that group without
  constraints of its own. \<open>demands a b\<close>: the declarations demand that \<open>a\<close> comes before
  \<open>b\<close>.
\<close>

record Declared =
  d_group :: string
  d_before :: "string list"
  d_after :: "string list"

definition demands :: "Declared \<Rightarrow> Declared \<Rightarrow> bool" where
  "demands a b = (d_group b \<in> set (d_before a) \<or> d_group a \<in> set (d_after b))"

definition declared_action :: "'a ActionMetadata_scheme \<Rightarrow> Declared" where
  "declared_action m = \<lparr>d_group = group m, d_before = fulfills m, d_after = dependsOn m\<rparr>"

definition declared_key :: "string \<Rightarrow> Declared" where
  "declared_key k = \<lparr>d_group = k, d_before = [], d_after = []\<rparr>"

definition declarations :: "'a ActionMetadata_scheme \<Rightarrow> Declared list" where
  "declarations m = declared_action m # map declared_key (fulfills m @ dependsOn m)"

text \<open>
  What the classes of a list declare for \<^verbatim>\<open>sortActionClasses\<close>: the class-level metadata
  of every class that has some.
\<close>

definition class_declarations :: "Store \<Rightarrow> Constructor list \<Rightarrow> Declared list" where
  "class_declarations st cs =
     concat (map (\<lambda>cls. case classMetadata st cls of None \<Rightarrow> [] | Some m \<Rightarrow> declarations m) cs)"

text \<open>
  What the classes of a list declare for \<^verbatim>\<open>sortActions\<close>: the metadata of the methods of
  every class. With \<^verbatim>\<open>includeClasses\<close> a class declares its class-level metadata as well,
  and each of its methods also follows the group of the class (a class without
  class-level metadata has no group to follow; the sort fails when it reaches such a
  class). A method reference that names no object declares nothing.
\<close>

definition method_objects :: "Store \<Rightarrow> Constructor \<Rightarrow> ActionMethod list" where
  "method_objects st cls =
     map (\<lambda>(m, r). methodObjects st ! r)
       (filter (\<lambda>(m, r). r < length (methodObjects st))
          (case methodsMetadata st cls of None \<Rightarrow> [] | Some mm \<Rightarrow> mm))"

definition method_declarations :: "bool \<Rightarrow> Store \<Rightarrow> Constructor list \<Rightarrow> Declared list" where
  "method_declarations includeClasses st cs =
     concat (map (\<lambda>cls.
       if includeClasses then
         (case classMetadata st cls of
            None \<Rightarrow> concat (map declarations (method_objects st cls))
          | Some cm \<Rightarrow>
              declarations cm @
              concat (map (\<lambda>m. declarations (m\<lparr>dependsOn := dependsOn m @ [group cm]\<rparr>))
                        (method_objects st cls)))
       else concat (map declarations (method_objects st cls))) cs)"

text \<open>
  A cycle among declared constraints: a non-empty list of declarations, each demanded
  before the next and the last demanded before the first.
\<close>

fun demand_chain :: "Declared list \<Rightarrow> bool" where
  "demand_chain [] = True"
| "demand_chain [a] = True"
| "demand_chain (a # b # rest) = (demands a b \<and> demand_chain (b # rest))"

definition declared_cycle :: "Declared list \<Rightarrow> Declared list \<Rightarrow> bool" where
  "declared_cycle ds c = (c \<noteq> [] \<and> list_all (\<lambda>a. a \<in> set ds) c \<and> demand_chain (c @ [hd c]))"

text \<open>\<open>covers g d\<close>: an item of the graph has the group of \<open>d\<close> and all its constraints.\<close>

definition covers :: "Graph \<Rightarrow> Declared \<Rightarrow> bool" where
  "covers g d =
     list_ex (\<lambda>i. item_group i = d_group d
                 \<and> set (d_before d) \<subseteq> set (before i) \<and> set (d_after d) \<subseteq> set (after i))
       (items g)"

section \<open>Example registries\<close>

text \<open>
  Three classes without methods: \<open>P1\<close> depends on the key \<open>k\<close>, \<open>P2\<close> declares
  nothing, \<open>P3\<close> fulfills \<open>k\<close>.
\<close>

definition tie_store :: Store where
  "tie_store =
     \<lparr>classMetadata = (\<lambda>c.
        if c = ''P1'' then Some \<lparr>group = ''P1'', fulfills = [], dependsOn = [''k''], target = ClassTarget ''P1''\<rparr>
        else if c = ''P2'' then Some \<lparr>group = ''P2'', fulfills = [], dependsOn = [], target = ClassTarget ''P2''\<rparr>
        else if c = ''P3'' then Some \<lparr>group = ''P3'', fulfills = [''k''], dependsOn = [], target = ClassTarget ''P3''\<rparr>
        else None),
      methodsMetadata = (\<lambda>c. None),
      methodObjects = [],
      classObjects = []\<rparr>"

text \<open>
  The pair of the cycle test: \<open>A\<close> fulfills \<open>x\<close> and depends on \<open>y\<close>, \<open>B\<close> fulfills \<open>y\<close>
  and depends on \<open>x\<close>; once as class-level metadata (classes \<open>A\<close>, \<open>B\<close>) and once as
  metadata of a method (method \<open>a\<close> of class \<open>MA\<close>, method \<open>b\<close> of class \<open>MB\<close>).
\<close>

definition cycle_store :: Store where
  "cycle_store =
     \<lparr>classMetadata = (\<lambda>c.
        if c = ''A'' then Some \<lparr>group = ''A'', fulfills = [''x''], dependsOn = [''y''], target = ClassTarget ''A''\<rparr>
        else if c = ''B'' then Some \<lparr>group = ''B'', fulfills = [''y''], dependsOn = [''x''], target = ClassTarget ''B''\<rparr>
        else if c = ''MA'' then Some \<lparr>group = ''MA'', fulfills = [], dependsOn = [], target = ClassTarget ''MA''\<rparr>
        else if c = ''MB'' then Some \<lparr>group = ''MB'', fulfills = [], dependsOn = [], target = ClassTarget ''MB''\<rparr>
        else None),
      methodsMetadata = (\<lambda>c.
        if c = ''MA'' then Some [(''a'', 0)]
        else if c = ''MB'' then Some [(''b'', 1)]
        else None),
      methodObjects =
        [\<lparr>group = ''a'', fulfills = [''x''], dependsOn = [''y''], target = PrototypeTarget ''MA'',
          method_name = ''a'', bindsReturnValueAs = None, actionClass = None, isStatic = False\<rparr>,
         \<lparr>group = ''b'', fulfills = [''y''], dependsOn = [''x''], target = PrototypeTarget ''MB'',
          method_name = ''b'', bindsReturnValueAs = None, actionClass = None, isStatic = False\<rparr>],
      classObjects = []\<rparr>"

text \<open>
  One class \<open>C\<close> with one method \<open>m\<close> that declares nothing, as the decorator records
  them.
\<close>

definition one_method_store :: Store where
  "one_method_store =
     \<lparr>classMetadata = (\<lambda>c.
        if c = ''C'' then Some \<lparr>group = ''class:C'', fulfills = [], dependsOn = [], target = ClassTarget ''C''\<rparr>
        else None),
      methodsMetadata = (\<lambda>c. if c = ''C'' then Some [(''m'', 0)] else None),
      methodObjects =
        [\<lparr>group = ''method:C.prototype.m'', fulfills = [], dependsOn = [],
          target = PrototypeTarget ''C'', method_name = ''m'', bindsReturnValueAs = None,
          actionClass = None, isStatic = False\<rparr>],
      classObjects = []\<rparr>"

text \<open>The store after one and after two inspections of \<open>C\<close>.\<close>

definition once_inspected :: Store where
  "once_inspected = snd (inspectAction one_method_store ''C'')"

definition twice_inspected :: Store where
  "twice_inspected = snd (inspectAction once_inspected ''C'')"

text \<open>
  The store after \<^verbatim>\<open>sortActions([C], true)\<close>, and after a second such call.
\<close>

definition sorted_with_classes :: Store where
  "sorted_with_classes = snd (sortActions one_method_store [''C''] True False)"

definition sorted_with_classes_twice :: Store where
  "sorted_with_classes_twice = snd (sortActions sorted_with_classes [''C''] True False)"

text \<open>
  A logger \<open>L\<close> whose method \<open>l\<close> reads \<open>tracingId\<close>, and a tracer \<open>T\<close> whose method \<open>t\<close>
  publishes its return value as \<open>tracingId\<close>; the store is a list of bindings, the
  instance of a class is its name, \<open>t\<close> returns \<open>id1\<close> and \<open>l\<close> returns nothing. With
  \<open>failing_ops\<close> the method \<open>l\<close> raises an error instead.
\<close>

definition run_store :: Store where
  "run_store =
     \<lparr>classMetadata = (\<lambda>c.
        if c = ''L'' then Some \<lparr>group = ''class:L'', fulfills = [], dependsOn = [], target = ClassTarget ''L''\<rparr>
        else if c = ''T'' then Some \<lparr>group = ''class:T'', fulfills = [], dependsOn = [], target = ClassTarget ''T''\<rparr>
        else None),
      methodsMetadata = (\<lambda>c.
        if c = ''L'' then Some [(''l'', 0)]
        else if c = ''T'' then Some [(''t'', 1)]
        else None),
      methodObjects =
        [\<lparr>group = ''l'', fulfills = [], dependsOn = [''tracingId''], target = PrototypeTarget ''L'',
          method_name = ''l'', bindsReturnValueAs = None, actionClass = None, isStatic = False\<rparr>,
         \<lparr>group = ''t'', fulfills = [''tracingId''], dependsOn = [], target = PrototypeTarget ''T'',
          method_name = ''t'', bindsReturnValueAs = Some ''tracingId'', actionClass = None,
          isStatic = False\<rparr>],
      classObjects = []\<rparr>"

definition run_ops :: "((string \<times> string) list, string) ContextOps" where
  "run_ops =
     \<lparr>ctx_get = (\<lambda>c k.
        if k = ''actions.L'' then (Inr ''L'', c)
        else if k = ''actions.T'' then (Inr ''T'', c)
        else (Inl (Thrown ''unbound''), c)),
      invokeMethod = (\<lambda>v m c. if m = ''t'' then (Inr (Some ''id1''), c) else (Inr None, c)),
      ctx_bind_to = (\<lambda>c k v. (k, v) # c)\<rparr>"


definition run_seq :: "(string \<times> string) list Sequence" where
  "run_seq = \<lparr>actionClasses = [''L'', ''T''], actionGraph = None, registry = []\<rparr>"

definition run_graph :: ActionGraph where
  "run_graph = projr (fst (sortActions run_store [''L'', ''T''] True False))"

definition run_store_sorted :: Store where
  "run_store_sorted = snd (sortActions run_store [''L'', ''T''] True False)"
text \<open>
  The registry of the classes declared in the unit test file of the package
  (packages/core/test/unit/action.test.ts): \<open>StopWatch\<close> with the methods \<open>start\<close> and
  \<open>stop\<close>, \<open>Logger\<close> with \<open>log\<close>, \<open>Tracing\<close> with \<open>setupTracingId\<close>, \<open>HttpServer\<close> with
  \<open>createRequest\<close> and \<open>MethodInvoker\<close> with \<open>invoke\<close>. The test file states the records of
  \<open>StopWatch\<close>, \<open>Logger\<close>, \<open>start\<close> and \<open>stop\<close> literally; all of them are the records that
  the decorator builds, see \<open>test_classes_decorated\<close>.
\<close>

definition test_classes :: Store where
  "test_classes =
     \<lparr>classMetadata = (\<lambda>c.
        if c = ''StopWatch'' then
          Some \<lparr>group = ''timer-group'', fulfills = [], dependsOn = [],
                target = ClassTarget ''StopWatch''\<rparr>
        else if c = ''Logger'' then
          Some \<lparr>group = ''class:Logger'', fulfills = [''logging''],
                dependsOn = [''log.prefix'', ''log.level''], target = ClassTarget ''Logger''\<rparr>
        else if c = ''Tracing'' then
          Some \<lparr>group = ''class:Tracing'', fulfills = [], dependsOn = [],
                target = ClassTarget ''Tracing''\<rparr>
        else if c = ''HttpServer'' then
          Some \<lparr>group = ''class:HttpServer'', fulfills = [], dependsOn = [],
                target = ClassTarget ''HttpServer''\<rparr>
        else if c = ''MethodInvoker'' then
          Some \<lparr>group = ''class:MethodInvoker'', fulfills = [], dependsOn = [],
                target = ClassTarget ''MethodInvoker''\<rparr>
        else None),
      methodsMetadata = (\<lambda>c.
        if c = ''StopWatch'' then Some [(''start'', 0), (''stop'', 1)]
        else if c = ''Logger'' then Some [(''log'', 2)]
        else if c = ''Tracing'' then Some [(''setupTracingId'', 3)]
        else if c = ''HttpServer'' then Some [(''createRequest'', 4)]
        else if c = ''MethodInvoker'' then Some [(''invoke'', 5)]
        else None),
      methodObjects =
        [\<lparr>group = ''method:StopWatch.prototype.start'', fulfills = [''startTime''],
          dependsOn = [''http.request''], target = PrototypeTarget ''StopWatch'',
          method_name = ''start'', bindsReturnValueAs = None, actionClass = None,
          isStatic = False\<rparr>,
         \<lparr>group = ''method:StopWatch.prototype.stop'', fulfills = [''duration''],
          dependsOn = [''startTime'', ''invocation''], target = PrototypeTarget ''StopWatch'',
          method_name = ''stop'', bindsReturnValueAs = Some ''duration'', actionClass = None,
          isStatic = False\<rparr>,
         \<lparr>group = ''method:Logger.prototype.log'', fulfills = [],
          dependsOn = [''tracingId'', ''duration'', ''invocation''],
          target = PrototypeTarget ''Logger'', method_name = ''log'', bindsReturnValueAs = None,
          actionClass = None, isStatic = False\<rparr>,
         \<lparr>group = ''method:Tracing.prototype.setupTracingId'', fulfills = [''tracingId''],
          dependsOn = [''http.request''], target = PrototypeTarget ''Tracing'',
          method_name = ''setupTracingId'', bindsReturnValueAs = Some ''tracingId'',
          actionClass = None, isStatic = False\<rparr>,
         \<lparr>group = ''method:HttpServer.prototype.createRequest'', fulfills = [''http.request''],
          dependsOn = [], target = PrototypeTarget ''HttpServer'',
          method_name = ''createRequest'', bindsReturnValueAs = None, actionClass = None,
          isStatic = False\<rparr>,
         \<lparr>group = ''method:MethodInvoker.prototype.invoke'',
          fulfills = [''invocation'', ''result''], dependsOn = [''tracingId''],
          target = PrototypeTarget ''MethodInvoker'', method_name = ''invoke'',
          bindsReturnValueAs = Some ''result'', actionClass = None, isStatic = False\<rparr>],
      classObjects = []\<rparr>"

text \<open>
  The arguments of the decorator applications of the test file: options that set
  nothing, a plain injection (\<^verbatim>\<open>@inject\<close>) and a setter injection (\<^verbatim>\<open>@inject.setter\<close>).
\<close>

definition no_options :: ActionOptions where
  "no_options =
     \<lparr>opt_group = None, opt_fulfills = None, opt_dependsOn = None, opt_bindsReturnValueAs = None\<rparr>"

definition inject :: "string \<Rightarrow> Injection" where
  "inject k = \<lparr>bindingKey = k, metadata = None\<rparr>"

definition inject_setter :: "string \<Rightarrow> Injection" where
  "inject_setter k = \<lparr>bindingKey = k, metadata = Some \<lparr>setter = True\<rparr>\<rparr>"

text \<open>The registry of the test classes after \<^verbatim>\<open>sortActions(classes, true, true)\<close>.\<close>

definition test_classes_sorted :: Store where
  "test_classes_sorted =
     snd (sortActions test_classes
       [''Logger'', ''StopWatch'', ''HttpServer'', ''MethodInvoker'', ''Tracing''] True True)"

text \<open>
  Three classes without methods whose constraints form a cycle through three keys:
  \<open>K1\<close> fulfills \<open>p\<close> and depends on \<open>r\<close>, \<open>K2\<close> fulfills \<open>q\<close> and depends on \<open>p\<close>, \<open>K3\<close>
  fulfills \<open>r\<close> and depends on \<open>q\<close>.
\<close>

definition cycle3_store :: Store where
  "cycle3_store =
     \<lparr>classMetadata = (\<lambda>c.
        if c = ''K1'' then Some \<lparr>group = ''K1'', fulfills = [''p''], dependsOn = [''r''], target = ClassTarget ''K1''\<rparr>
        else if c = ''K2'' then Some \<lparr>group = ''K2'', fulfills = [''q''], dependsOn = [''p''], target = ClassTarget ''K2''\<rparr>
        else if c = ''K3'' then Some \<lparr>group = ''K3'', fulfills = [''r''], dependsOn = [''q''], target = ClassTarget ''K3''\<rparr>
        else None),
      methodsMetadata = (\<lambda>c. None),
      methodObjects = [],
      classObjects = []\<rparr>"

definition cycle3 :: "Declared list" where
  "cycle3 =
     [\<lparr>d_group = ''K1'', d_before = [''p''], d_after = [''r'']\<rparr>,
      \<lparr>d_group = ''p'', d_before = [], d_after = []\<rparr>,
      \<lparr>d_group = ''K2'', d_before = [''q''], d_after = [''p'']\<rparr>,
      \<lparr>d_group = ''q'', d_before = [], d_after = []\<rparr>,
      \<lparr>d_group = ''K3'', d_before = [''r''], d_after = [''q'']\<rparr>,
      \<lparr>d_group = ''r'', d_before = [], d_after = []\<rparr>]"

section \<open>Key normalisation: properties\<close>

lemma js_split_not_Nil: "js_split sep s \<noteq> []"
  by (induction s) (auto split: list.splits)

lemma js_split_first: "(case js_split sep s of [] \<Rightarrow> [] | seg # _ \<Rightarrow> seg) = takeWhile (\<lambda>c. c \<noteq> sep) s"
  by (induction s) (auto split: list.splits)

lemma first_segment_strip: "first_segment k = strip_qualifier k"
  by (simp add: first_segment_def strip_qualifier_def js_split_first)

lemma first_seen_set_cong: "set s = set t \<Longrightarrow> first_seen s xs = first_seen t xs"
proof (induction xs arbitrary: s t)
  case Nil
  show ?case by simp
next
  case (Cons y ys)
  have "first_seen (y # s) ys = first_seen (y # t) ys"
    by (rule Cons.IH) (simp add: Cons.prems)
  with Cons.prems Cons.IH [of s t] show ?case by simp
qed

lemma foldl_set_add: "foldl set_add acc xs = acc @ first_seen acc xs"
proof (induction xs arbitrary: acc)
  case Nil
  show ?case by simp
next
  case (Cons x xs)
  have "first_seen (acc @ [x]) xs = first_seen (x # acc) xs"
    by (rule first_seen_set_cong) simp
  with Cons show ?case by (simp add: set_add_def)
qed

lemma array_from_new_Set_dedup: "array_from_new_Set xs = dedup_first_seen xs"
  by (simp add: array_from_new_Set_def dedup_first_seen_def foldl_set_add)

lemma set_first_seen: "set (first_seen seen xs) = set xs - set seen"
  by (induction xs arbitrary: seen) auto

lemma distinct_first_seen: "distinct (first_seen seen xs)"
  by (induction xs arbitrary: seen) (auto simp: set_first_seen)

lemma distinct_dedup_first_seen: "distinct (dedup_first_seen xs)"
  by (simp add: dedup_first_seen_def distinct_first_seen)

lemma set_dedup_first_seen: "set (dedup_first_seen xs) = set xs"
  by (simp add: dedup_first_seen_def set_first_seen)

lemma first_seen_removeAll: "first_seen (x # seen) xs = first_seen seen (removeAll x xs)"
proof (induction xs arbitrary: seen)
  case Nil
  show ?case by simp
next
  case (Cons a xs)
  have "first_seen (a # x # seen) xs = first_seen (x # a # seen) xs"
    by (rule first_seen_set_cong) auto
  with Cons [of seen] Cons [of "a # seen"] show ?case by simp
qed

lemma dedup_first_seen_Cons: "dedup_first_seen (x # xs) = x # dedup_first_seen (removeAll x xs)"
proof -
  have "first_seen [x] xs = first_seen [] (removeAll x xs)"
    by (rule first_seen_removeAll)
  then show ?thesis by (simp add: dedup_first_seen_def)
qed

lemma count_list_distinct: "distinct xs \<Longrightarrow> x \<in> set xs \<Longrightarrow> count_list xs x = 1"
  by (induction xs) auto

lemma normalizeKeys_Some: "normalizeKeys (Some ks) = dedup_first_seen (map strip_qualifier ks)"
proof -
  have "first_segment = strip_qualifier"
    by (rule ext) (rule first_segment_strip)
  then show ?thesis
    by (simp add: normalizeKeys_def array_from_new_Set_dedup)
qed

text \<open>
  Claim C4. For every metadata record and every list of injections, the extracted
  \<open>dependsOn\<close> is the keys of the plain-read injections followed by the declared
  entries, and the extracted \<open>fulfills\<close> is the keys of the setter injections followed by
  the declared entries; each list is then normalised by cutting every key at its \<open>#\<close>
  qualifier and keeping the first occurrence of each key, so it has no duplicates. The
  other fields are unchanged, an absent key list normalises to the empty list, and the
  function is total: it has no error outcome.
\<close>

theorem populateActionMetadata_extracts:
  "dependsOn (populateActionMetadata am injections) =
     dedup_first_seen (map strip_qualifier
       (map bindingKey (filter (\<lambda>p. \<not> is_setter p) injections) @ dependsOn am))
   \<and> fulfills (populateActionMetadata am injections) =
     dedup_first_seen (map strip_qualifier
       (map bindingKey (filter is_setter injections) @ fulfills am))
   \<and> distinct (dependsOn (populateActionMetadata am injections))
   \<and> distinct (fulfills (populateActionMetadata am injections))
   \<and> group (populateActionMetadata am injections) = group am
   \<and> target (populateActionMetadata am injections) = target am
   \<and> ActionMetadata.more (populateActionMetadata am injections) = ActionMetadata.more am
   \<and> normalizeKeys None = []
   \<and> normalizeKeys None = normalizeKeys (Some [])"
proof -
  have d: "dependsOn (populateActionMetadata am injections) =
     dedup_first_seen (map strip_qualifier
       (map bindingKey (filter (\<lambda>p. \<not> is_setter p) injections) @ dependsOn am))"
    by (simp add: populateActionMetadata_def Let_def normalizeKeys_Some)
  have f: "fulfills (populateActionMetadata am injections) =
     dedup_first_seen (map strip_qualifier
       (map bindingKey (filter is_setter injections) @ fulfills am))"
    by (simp add: populateActionMetadata_def Let_def normalizeKeys_Some)
  have dd: "distinct (dependsOn (populateActionMetadata am injections))"
    unfolding d by (rule distinct_dedup_first_seen)
  have df: "distinct (fulfills (populateActionMetadata am injections))"
    unfolding f by (rule distinct_dedup_first_seen)
  have rest: "group (populateActionMetadata am injections) = group am
     \<and> target (populateActionMetadata am injections) = target am
     \<and> ActionMetadata.more (populateActionMetadata am injections) = ActionMetadata.more am"
    by (simp add: populateActionMetadata_def Let_def)
  have n: "normalizeKeys None = [] \<and> normalizeKeys None = normalizeKeys (Some [])"
    by (simp add: normalizeKeys_def array_from_new_Set_def)
  from d f dd df rest n show ?thesis by blast
qed

text \<open>
  Claim C10. Normalisation maps a key to the part before its first \<open>#\<close>. A key that
  starts with \<open>#\<close> therefore normalises to the empty string; when such a key is among
  the plain-read injections or the declared \<open>dependsOn\<close> entries (the setter injections
  or the declared \<open>fulfills\<close> entries), the empty string is an entry of the resulting
  list, and it occurs there exactly once however many such keys there were.
\<close>

theorem qualifier_only_key_normalises_to_empty:
  "first_segment k = takeWhile (\<lambda>c. c \<noteq> CHR ''#'') k
   \<and> first_segment (CHR ''#'' # q) = []
   \<and> (CHR ''#'' # q \<in> set (map bindingKey (filter (\<lambda>p. \<not> is_setter p) injections) @ dependsOn am)
        \<longrightarrow> [] \<in> set (dependsOn (populateActionMetadata am injections))
          \<and> count_list (dependsOn (populateActionMetadata am injections)) [] = 1)
   \<and> (CHR ''#'' # q \<in> set (map bindingKey (filter is_setter injections) @ fulfills am)
        \<longrightarrow> [] \<in> set (fulfills (populateActionMetadata am injections))
          \<and> count_list (fulfills (populateActionMetadata am injections)) [] = 1)"
proof -
  have a: "first_segment k = takeWhile (\<lambda>c. c \<noteq> CHR ''#'') k" for k
    by (simp add: first_segment_strip strip_qualifier_def)
  have b: "first_segment (CHR ''#'' # q) = []"
    by (simp add: a)
  have s: "strip_qualifier (CHR ''#'' # q) = []"
    by (simp add: strip_qualifier_def)
  have once: "[] \<in> set (dedup_first_seen (map strip_qualifier ks))
      \<and> count_list (dedup_first_seen (map strip_qualifier ks)) [] = 1"
    if "CHR ''#'' # q \<in> set ks" for ks
  proof -
    from that s have "[] \<in> strip_qualifier ` set ks"
      by force
    then have m: "[] \<in> set (dedup_first_seen (map strip_qualifier ks))"
      by (simp add: set_dedup_first_seen)
    with distinct_dedup_first_seen [of "map strip_qualifier ks"]
    show ?thesis by (simp add: count_list_distinct)
  qed
  have d: "dependsOn (populateActionMetadata am injections) =
     dedup_first_seen (map strip_qualifier
       (map bindingKey (filter (\<lambda>p. \<not> is_setter p) injections) @ dependsOn am))"
    by (simp add: populateActionMetadata_def Let_def normalizeKeys_Some)
  have f: "fulfills (populateActionMetadata am injections) =
     dedup_first_seen (map strip_qualifier
       (map bindingKey (filter is_setter injections) @ fulfills am))"
    by (simp add: populateActionMetadata_def Let_def normalizeKeys_Some)
  show ?thesis
    unfolding d f using a b once by blast
qed

theorem qualifier_only_key_witness:
  "first_segment ''#a'' = []
   \<and> dependsOn (populateActionMetadata
        \<lparr>group = ''g'', fulfills = [], dependsOn = [''#b'', ''k''], target = ClassTarget ''C''\<rparr>
        [\<lparr>bindingKey = ''#a'', metadata = None\<rparr>]) = ['''', ''k'']"
proof -
  let ?am = "\<lparr>group = ''g'', fulfills = [], dependsOn = [''#b'', ''k''], target = ClassTarget ''C''\<rparr>"
  let ?inj = "[\<lparr>bindingKey = ''#a'', metadata = None\<rparr>]"
  have mem: "CHR ''#'' # ''a'' \<in> set (map bindingKey (filter (\<lambda>p. \<not> is_setter p) ?inj) @ dependsOn ?am)"
    by (simp add: is_setter_def)
  from qualifier_only_key_normalises_to_empty [of "''#a''" "''a''" ?inj ?am] mem
  have "first_segment ''#a'' = []" and "[] \<in> set (dependsOn (populateActionMetadata ?am ?inj))"
    by simp_all
  moreover have "dependsOn (populateActionMetadata ?am ?inj) = ['''', ''k'']"
    by (simp add: populateActionMetadata_def Let_def normalizeKeys_def first_segment_def
        array_from_new_Set_def set_add_def is_setter_def)
  ultimately show ?thesis by simp
qed

section \<open>The sort: soundness\<close>

lemma ready_iff: "ready pending v \<longleftrightarrow> (\<forall>u\<in>set pending. \<not> precedes u v)"
  by (simp add: ready_def list_all_iff)

lemma ready_set_cong: "set xs = set ys \<Longrightarrow> ready xs v = ready ys v"
  by (simp add: ready_iff)

lemma kahn_Cons_Some:
  assumes "kahn (p # ps) = Some ys"
  obtains v rest where "ys = v # rest" and "v \<in> set (p # ps)" and "ready (p # ps) v"
    and "\<forall>u\<in>set (p # ps). ready (p # ps) u \<longrightarrow> seq v \<le> seq u"
    and "kahn (remove1 v (p # ps)) = Some rest"
proof -
  define F where "F = filter (ready (p # ps)) (p # ps)"
  from assms have eq: "(case F of [] \<Rightarrow> None
      | r # rs \<Rightarrow> (let v = arg_min_list seq (r # rs) in
           case kahn (remove1 v (p # ps)) of None \<Rightarrow> None | Some rest \<Rightarrow> Some (v # rest))) = Some ys"
    unfolding F_def by (simp only: kahn.simps)
  then obtain r rs where F: "F = r # rs"
    by (cases F) simp_all
  have f: "filter (ready (p # ps)) (p # ps) = r # rs"
    using F by (simp only: F_def)
  define v where "v = arg_min_list seq (r # rs)"
  define K where "K = kahn (remove1 v (p # ps))"
  from eq have "(case K of None \<Rightarrow> None | Some rest \<Rightarrow> Some (v # rest)) = Some ys"
    unfolding F K_def v_def by (simp only: list.case Let_def)
  then obtain rest where "K = Some rest" and ys: "ys = v # rest"
    by (cases K) auto
  then have rest: "kahn (remove1 v (p # ps)) = Some rest"
    by (simp only: K_def)
  have vin: "v \<in> set (r # rs)"
    unfolding v_def by (rule arg_min_list_in) simp
  then have vf: "v \<in> set (filter (ready (p # ps)) (p # ps))"
    by (simp only: f)
  then have v1: "v \<in> set (p # ps)" and v2: "ready (p # ps) v"
    by (simp_all only: set_filter mem_Collect_eq)
  have least: "seq v = Min (seq ` set (r # rs))"
    unfolding v_def by (rule f_arg_min_list_f) simp
  have "seq v \<le> seq u" if "u \<in> set (p # ps)" "ready (p # ps) u" for u
  proof -
    from that have "u \<in> set (filter (ready (p # ps)) (p # ps))"
      by (simp only: set_filter mem_Collect_eq)
    then have "u \<in> set (r # rs)" by (simp only: f)
    then show ?thesis unfolding least by (intro Min_le) auto
  qed
  with ys v1 v2 rest that show thesis by blast
qed

lemma kahn_sound:
  "kahn xs = Some ys \<Longrightarrow> mset ys = mset xs \<and> ordered ys \<and> greedy ys"
proof (induction xs arbitrary: ys rule: length_induct)
  case (1 xs)
  show ?case
  proof (cases xs)
    case Nil
    with 1 show ?thesis by (simp add: kahn.simps)
  next
    case (Cons p ps)
    with 1 have k: "kahn (p # ps) = Some ys" by simp
    from k obtain v rest where ys: "ys = v # rest" and vin: "v \<in> set (p # ps)"
      and rdy: "ready (p # ps) v"
      and least: "\<forall>u\<in>set (p # ps). ready (p # ps) u \<longrightarrow> seq v \<le> seq u"
      and rest: "kahn (remove1 v (p # ps)) = Some rest"
      by (rule kahn_Cons_Some)
    from vin have "length (remove1 v (p # ps)) < length xs"
      unfolding Cons by (simp only: length_remove1) simp
    with 1 rest have ih: "mset rest = mset (remove1 v (p # ps)) \<and> ordered rest \<and> greedy rest"
      by blast
    from vin have "v \<in># mset (p # ps)"
      by (simp only: set_mset_mset)
    then have "add_mset v (mset (p # ps) - {#v#}) = mset (p # ps)"
      by (rule insert_DiffM)
    with ih have m: "mset ys = mset (p # ps)"
      unfolding ys by (simp only: mset.simps mset_remove1)
    then have s: "set (v # rest) = set (p # ps)"
      unfolding ys by (rule mset_eq_setD)
    have r1: "ready (v # rest) u = ready (p # ps) u" for u
      by (rule ready_set_cong) (rule s)
    from rdy ih have o: "ordered ys"
      unfolding ys by (simp add: r1)
    from least ih have g: "greedy ys"
      unfolding ys by (simp only: greedy.simps list_all_iff r1 s)
    from m o g Cons show ?thesis by simp
  qed
qed

lemma ordered_iff:
  "ordered ys \<longleftrightarrow> sorted_wrt (\<lambda>a b. \<not> precedes b a) ys \<and> (\<forall>a\<in>set ys. \<not> precedes a a)"
  by (induction ys) (auto simp: ready_iff)

lemma ordered_filter: "ordered ys \<Longrightarrow> ordered (filter P ys)"
  by (auto simp: ordered_iff sorted_wrt_filter)

lemma ordered_nth:
  assumes "ordered ys" and "i < length ys" and "j < length ys" and "precedes (ys ! i) (ys ! j)"
  shows "i < j"
proof (rule ccontr)
  assume "\<not> i < j"
  then consider "j < i" | "j = i" by linarith
  then show False
  proof cases
    case 1
    from assms(1) have "sorted_wrt (\<lambda>a b. \<not> precedes b a) ys"
      by (simp add: ordered_iff)
    from sorted_wrt_nth_less [OF this 1 assms(2)] assms(4) show False by simp
  next
    case 2
    from assms(1) assms(2) have "\<not> precedes (ys ! i) (ys ! i)"
      by (simp add: ordered_iff)
    with 2 assms(4) show False by simp
  qed
qed

lemma greedy_nth:
  "greedy ys \<Longrightarrow> i \<le> j \<Longrightarrow> j < length ys \<Longrightarrow> ready (drop i ys) (ys ! j)
     \<Longrightarrow> seq (ys ! i) \<le> seq (ys ! j)"
proof (induction ys arbitrary: i j)
  case Nil
  then show ?case by simp
next
  case (Cons v rest)
  show ?case
  proof (cases i)
    case 0
    with Cons.prems have "ready (v # rest) ((v # rest) ! j)" by simp
    moreover from Cons.prems have "(v # rest) ! j \<in> set (v # rest)"
      by (intro nth_mem) simp
    moreover from Cons.prems(1) have "\<forall>u\<in>set (v # rest). ready (v # rest) u \<longrightarrow> seq v \<le> seq u"
      by (simp only: greedy.simps list_all_iff) blast
    ultimately have "seq v \<le> seq ((v # rest) ! j)" by blast
    with 0 show ?thesis by simp
  next
    case (Suc i')
    with Cons.prems obtain j' where j: "j = Suc j'" by (cases j) simp_all
    from Cons.prems have "greedy rest" by simp
    moreover from Cons.prems Suc j have "i' \<le> j'" "j' < length rest" "ready (drop i' rest) (rest ! j')"
      by simp_all
    ultimately have "seq (rest ! i') \<le> seq (rest ! j')" by (rule Cons.IH)
    with Suc j show ?thesis by simp
  qed
qed

section \<open>The Graph Builder: what a successful insertion gives\<close>

lemma sorted_graph_new_Topo: "sorted_graph new_Topo"
  by (simp add: sorted_graph_def new_Topo_def)

lemma add_Inr:
  assumes "add g n grp bef aft = Inr g'"
  shows "sorted_graph g'"
    and "mset (items g') = add_mset
           \<lparr>seq = length (items g), before = bef, after = aft, item_group = grp, node = n\<rparr>
           (mset (items g))"
proof -
  let ?item = "\<lparr>seq = length (items g), before = bef, after = aft, item_group = grp, node = n\<rparr>"
  from assms obtain its where k: "kahn (items g @ [?item]) = Some its"
    and g': "g' = \<lparr>items = its, nodes = map node its\<rparr>"
    by (auto simp: add_def Let_def split: option.splits)
  from kahn_sound [OF k] show "sorted_graph g'"
    by (simp add: g' sorted_graph_def)
  from kahn_sound [OF k] show "mset (items g') = add_mset ?item (mset (items g))"
    by (simp add: g')
qed

lemma add_Inl: "add g n grp bef aft = Inl e \<Longrightarrow> e = DependenciesError"
  by (auto simp: add_def Let_def split: option.splits)
lemma add_keys_sorted: "sorted_graph g \<Longrightarrow> add_keys g ks = Inr g' \<Longrightarrow> sorted_graph g'"
proof (induction ks arbitrary: g)
  case Nil
  then show ?case by simp
next
  case (Cons k ks)
  show ?case
  proof (cases "exists_group g k")
    case True
    with Cons.prems have "add_keys g ks = Inr g'" by simp
    with Cons.prems(1) show ?thesis by (rule Cons.IH)
  next
    case False
    with Cons.prems obtain g1 where a: "add g (KeyNode k) k [] [] = Inr g1"
      and r: "add_keys g1 ks = Inr g'"
      by (auto split: sum.splits)
    from a have "sorted_graph g1" by (rule add_Inr)
    then show ?thesis using r by (rule Cons.IH)
  qed
qed

lemma addActionToGraph_sorted: "addActionToGraph g n meta = Inr g' \<Longrightarrow> sorted_graph g'"
  by (auto simp: addActionToGraph_def split: sum.splits dest: add_Inr(1))

lemma add_classes_sorted: "sorted_graph g \<Longrightarrow> add_classes st g cs = Inr g' \<Longrightarrow> sorted_graph g'"
proof (induction cs arbitrary: g)
  case Nil
  then show ?case by simp
next
  case (Cons c cs)
  from Cons.prems obtain meta :: ActionMetadata and g1
    where "addActionToGraph g (ClassMetadataNode c) meta = Inr g1"
    and r: "add_classes st g1 cs = Inr g'"
    by (auto split: option.splits sum.splits)
  then have "sorted_graph g1" by (simp add: addActionToGraph_sorted)
  then show ?case using r by (rule Cons.IH)
qed

lemma add_methods_sorted:
  "sorted_graph g \<Longrightarrow> add_methods pushed st g ms = (Inr g', st') \<Longrightarrow> sorted_graph g'"
proof (induction ms arbitrary: g st)
  case Nil
  then show ?case by simp
next
  case (Cons mr ms)
  obtain m r where mr: "mr = (m, r)" by (cases mr)
  define st1 where "st1 = (case pushed of None \<Rightarrow> st | Some cg \<Rightarrow> push_dependsOn r cg st)"
  from Cons.prems(2) obtain g1 where "addActionToGraph g (MethodNode r) (methodObjects st1 ! r) = Inr g1"
    and r: "add_methods pushed st1 g1 ms = (Inr g', st')"
    unfolding mr st1_def by (auto simp: Let_def split: if_splits sum.splits)
  then have "sorted_graph g1" by (simp add: addActionToGraph_sorted)
  then show ?case using r by (rule Cons.IH)
qed

lemma sortActions_loop_sorted:
  "sorted_graph g \<Longrightarrow> sortActions_loop ic st g cs = (Inr g', st') \<Longrightarrow> sorted_graph g'"
proof (induction cs arbitrary: g st)
  case Nil
  then show ?case by simp
next
  case (Cons c cs)
  obtain d st1 where i: "inspectAction st c = (d, st1)" by (cases "inspectAction st c")
  define meta where "meta = classObjects st1 ! d"
  show ?case
  proof (cases ic)
    case True
    with Cons.prems(2) i obtain cm :: ActionMetadata and g1 g2 st2
      where "addActionToGraph g (ClassNode d) cm = Inr g1"
      and m: "add_methods (Some (group cm)) st1 g1 (methods meta) = (Inr g2, st2)"
      and r: "sortActions_loop ic st2 g2 cs = (Inr g', st')"
      unfolding meta_def by (auto simp: Let_def split: option.splits sum.splits prod.splits)
    then have "sorted_graph g1" by (simp add: addActionToGraph_sorted)
    then have "sorted_graph g2" using m by (rule add_methods_sorted)
    then show ?thesis using r by (rule Cons.IH)
  next
    case False
    with Cons.prems(2) i obtain g2 st2 where
      m: "add_methods None st1 g (methods meta) = (Inr g2, st2)"
      and r: "sortActions_loop ic st2 g2 cs = (Inr g', st')"
      unfolding meta_def by (auto simp: Let_def split: option.splits sum.splits prod.splits)
    from Cons.prems(1) m have "sorted_graph g2" by (rule add_methods_sorted)
    then show ?thesis using r by (rule Cons.IH)
  qed
qed

lemma sortActionClasses_Inr:
  assumes "sortActionClasses st cs removeKeys = Inr ag"
  shows "sorted_graph (graph ag)" and "actions ag = actions (finish (graph ag) removeKeys)"
proof -
  from assms obtain g where g: "add_classes st new_Topo cs = Inr g" and ag: "ag = finish g removeKeys"
    by (auto simp: sortActionClasses_def split: sum.splits)
  from ag have gg: "graph ag = g"
    by (simp add: finish_def new_ActionGraph_def)
  from sorted_graph_new_Topo g show "sorted_graph (graph ag)"
    unfolding gg by (rule add_classes_sorted)
  show "actions ag = actions (finish (graph ag) removeKeys)"
    unfolding gg by (simp only: ag)
qed

lemma sortActions_Inr:
  assumes "fst (sortActions st cs ic removeKeys) = Inr ag"
  shows "sorted_graph (graph ag)" and "actions ag = actions (finish (graph ag) removeKeys)"
proof -
  from assms obtain g st' where g: "sortActions_loop ic st new_Topo cs = (Inr g, st')"
    and ag: "ag = finish g removeKeys"
    by (auto simp: sortActions_def split: sum.splits prod.splits)
  from ag have gg: "graph ag = g"
    by (simp add: finish_def new_ActionGraph_def)
  from sorted_graph_new_Topo g show "sorted_graph (graph ag)"
    unfolding gg by (rule sortActions_loop_sorted)
  show "actions ag = actions (finish (graph ag) removeKeys)"
    unfolding gg by (simp only: ag)
qed

lemma sorted_graph_output:
  fixes g :: Graph and removeKeys :: bool
  assumes "sorted_graph g"
  defines "its \<equiv> items g"
  defines "out \<equiv> (if removeKeys then filter (\<lambda>i. is_object (node i)) its else its)"
  shows "actions (finish g removeKeys) = map node out
    \<and> (\<forall>i j. i < length out \<and> j < length out \<and> item_group (out ! j) \<in> set (before (out ! i)) \<longrightarrow> i < j)
    \<and> (\<forall>i j. i < length out \<and> j < length out \<and> item_group (out ! j) \<in> set (after (out ! i)) \<longrightarrow> j < i)
    \<and> (\<forall>i j. i \<le> j \<and> j < length its \<and> ready (drop i its) (its ! j) \<longrightarrow> seq (its ! i) \<le> seq (its ! j))"
proof -
  from assms(1) have n: "nodes g = map node its" and o: "ordered its" and gr: "greedy its"
    by (simp_all add: sorted_graph_def its_def)
  have a: "actions (finish g removeKeys) = map node out"
    by (simp add: finish_def new_ActionGraph_def out_def n filter_map comp_def)
  from o have oo: "ordered out"
    by (simp add: out_def ordered_filter)
  have b: "i < j" if "i < length out" "j < length out" "item_group (out ! j) \<in> set (before (out ! i))" for i j
  proof -
    from that(3) have "precedes (out ! i) (out ! j)" by (simp add: precedes_def)
    with oo that(1,2) show ?thesis by (rule ordered_nth)
  qed
  have c: "j < i" if "i < length out" "j < length out" "item_group (out ! j) \<in> set (after (out ! i))" for i j
  proof -
    from that(3) have "precedes (out ! j) (out ! i)" by (simp add: precedes_def)
    with oo that(2,1) show ?thesis by (rule ordered_nth)
  qed
  have d: "seq (its ! i) \<le> seq (its ! j)" if "i \<le> j" "j < length its" "ready (drop i its) (its ! j)" for i j
    using gr that by (rule greedy_nth)
  from a b c d show ?thesis by blast
qed

section \<open>The sequence numbers of the items\<close>

lemma numbered_new_Topo: "numbered new_Topo"
  by (simp add: numbered_def new_Topo_def)

lemma numbered_distinct: "numbered g \<Longrightarrow> distinct (map seq (items g))"
proof -
  assume "numbered g"
  then have "mset (map seq (items g)) = mset [0..<length (items g)]"
    by (simp only: numbered_def)
  then have "distinct (map seq (items g)) = distinct [0..<length (items g)]"
    by (rule mset_eq_imp_distinct_iff)
  then show ?thesis by simp
qed

lemma add_numbered:
  assumes "numbered g" and "add g n grp bef aft = Inr g'"
  shows "numbered g'"
proof -
  let ?item = "\<lparr>seq = length (items g), before = bef, after = aft, item_group = grp, node = n\<rparr>"
  from assms(2) have m: "mset (items g') = add_mset ?item (mset (items g))"
    by (rule add_Inr(2))
  then have "size (mset (items g')) = size (add_mset ?item (mset (items g)))"
    by (simp only:)
  then have l: "length (items g') = Suc (length (items g))"
    by simp
  from m have "image_mset seq (mset (items g')) = image_mset seq (add_mset ?item (mset (items g)))"
    by (simp only:)
  then have "mset (map seq (items g')) = add_mset (length (items g)) (mset (map seq (items g)))"
    by simp
  also from assms(1) have "\<dots> = add_mset (length (items g)) (mset [0..<length (items g)])"
    by (simp only: numbered_def)
  also have "\<dots> = mset [0..<Suc (length (items g))]"
    by simp
  finally show ?thesis
    by (simp only: numbered_def l)
qed

lemma add_keys_numbered: "numbered g \<Longrightarrow> add_keys g ks = Inr g' \<Longrightarrow> numbered g'"
proof (induction ks arbitrary: g)
  case Nil
  then show ?case by simp
next
  case (Cons k ks)
  show ?case
  proof (cases "exists_group g k")
    case True
    with Cons.prems have "add_keys g ks = Inr g'" by simp
    with Cons.prems(1) show ?thesis by (rule Cons.IH)
  next
    case False
    with Cons.prems obtain g1 where a: "add g (KeyNode k) k [] [] = Inr g1"
      and r: "add_keys g1 ks = Inr g'"
      by (auto split: sum.splits)
    from Cons.prems(1) a have "numbered g1" by (rule add_numbered)
    then show ?thesis using r by (rule Cons.IH)
  qed
qed

lemma addActionToGraph_numbered:
  assumes "numbered g" and "addActionToGraph g n meta = Inr g'"
  shows "numbered g'"
proof -
  from assms(2) obtain g1 g2 where 1: "add_keys g (fulfills meta) = Inr g1"
    and 2: "add_keys g1 (dependsOn meta) = Inr g2"
    and 3: "add g2 n (group meta) (fulfills meta) (dependsOn meta) = Inr g'"
    by (auto simp: addActionToGraph_def split: sum.splits)
  from assms(1) 1 have "numbered g1" by (rule add_keys_numbered)
  then have "numbered g2" using 2 by (rule add_keys_numbered)
  then show ?thesis using 3 by (rule add_numbered)
qed

lemma add_classes_numbered: "numbered g \<Longrightarrow> add_classes st g cs = Inr g' \<Longrightarrow> numbered g'"
proof (induction cs arbitrary: g)
  case Nil
  then show ?case by simp
next
  case (Cons c cs)
  from Cons.prems obtain meta :: ActionMetadata and g1
    where a: "addActionToGraph g (ClassMetadataNode c) meta = Inr g1"
    and r: "add_classes st g1 cs = Inr g'"
    by (auto split: option.splits sum.splits)
  from Cons.prems(1) a have "numbered g1" by (rule addActionToGraph_numbered)
  then show ?case using r by (rule Cons.IH)
qed

lemma add_methods_numbered:
  "numbered g \<Longrightarrow> add_methods pushed st g ms = (Inr g', st') \<Longrightarrow> numbered g'"
proof (induction ms arbitrary: g st)
  case Nil
  then show ?case by simp
next
  case (Cons mr ms)
  obtain m r where mr: "mr = (m, r)" by (cases mr)
  define st1 where "st1 = (case pushed of None \<Rightarrow> st | Some cg \<Rightarrow> push_dependsOn r cg st)"
  from Cons.prems(2) obtain g1 where a: "addActionToGraph g (MethodNode r) (methodObjects st1 ! r) = Inr g1"
    and r: "add_methods pushed st1 g1 ms = (Inr g', st')"
    unfolding mr st1_def by (auto simp: Let_def split: if_splits sum.splits)
  from Cons.prems(1) a have "numbered g1" by (rule addActionToGraph_numbered)
  then show ?case using r by (rule Cons.IH)
qed

lemma sortActions_loop_numbered:
  "numbered g \<Longrightarrow> sortActions_loop ic st g cs = (Inr g', st') \<Longrightarrow> numbered g'"
proof (induction cs arbitrary: g st)
  case Nil
  then show ?case by simp
next
  case (Cons c cs)
  obtain d st1 where i: "inspectAction st c = (d, st1)" by (cases "inspectAction st c")
  define meta where "meta = classObjects st1 ! d"
  show ?case
  proof (cases ic)
    case True
    with Cons.prems(2) i obtain cm :: ActionMetadata and g1 g2 st2
      where a: "addActionToGraph g (ClassNode d) cm = Inr g1"
      and m: "add_methods (Some (group cm)) st1 g1 (methods meta) = (Inr g2, st2)"
      and r: "sortActions_loop ic st2 g2 cs = (Inr g', st')"
      unfolding meta_def by (auto simp: Let_def split: option.splits sum.splits prod.splits)
    from Cons.prems(1) a have "numbered g1" by (rule addActionToGraph_numbered)
    then have "numbered g2" using m by (rule add_methods_numbered)
    then show ?thesis using r by (rule Cons.IH)
  next
    case False
    with Cons.prems(2) i obtain g2 st2 where
      m: "add_methods None st1 g (methods meta) = (Inr g2, st2)"
      and r: "sortActions_loop ic st2 g2 cs = (Inr g', st')"
      unfolding meta_def by (auto simp: Let_def split: option.splits sum.splits prod.splits)
    from Cons.prems(1) m have "numbered g2" by (rule add_methods_numbered)
    then show ?thesis using r by (rule Cons.IH)
  qed
qed

lemma sortActionClasses_numbered:
  assumes "sortActionClasses st cs removeKeys = Inr ag"
  shows "numbered (graph ag)"
proof -
  from assms obtain g where g: "add_classes st new_Topo cs = Inr g" and ag: "ag = finish g removeKeys"
    by (auto simp: sortActionClasses_def split: sum.splits)
  from ag have gg: "graph ag = g"
    by (simp add: finish_def new_ActionGraph_def)
  from numbered_new_Topo g show ?thesis
    unfolding gg by (rule add_classes_numbered)
qed

lemma sortActions_numbered:
  assumes "fst (sortActions st cs ic removeKeys) = Inr ag"
  shows "numbered (graph ag)"
proof -
  from assms obtain g st' where g: "sortActions_loop ic st new_Topo cs = (Inr g, st')"
    and ag: "ag = finish g removeKeys"
    by (auto simp: sortActions_def split: sum.splits prod.splits)
  from ag have gg: "graph ag = g"
    by (simp add: finish_def new_ActionGraph_def)
  from numbered_new_Topo g show ?thesis
    unfolding gg by (rule sortActions_loop_numbered)
qed

lemma ordered_ready_nth: "ordered ys \<Longrightarrow> i < length ys \<Longrightarrow> ready (drop i ys) (ys ! i)"
proof (induction ys arbitrary: i)
  case Nil
  then show ?case by simp
next
  case (Cons v rest)
  then show ?case by (cases i) simp_all
qed

lemma sorted_graph_items:
  fixes g :: Graph
  assumes "sorted_graph g"
  defines "its \<equiv> items g"
  shows "nodes g = map node its
    \<and> (\<forall>i j. i < length its \<and> j < length its \<and> item_group (its ! j) \<in> set (before (its ! i)) \<longrightarrow> i < j)
    \<and> (\<forall>i j. i < length its \<and> j < length its \<and> item_group (its ! j) \<in> set (after (its ! i)) \<longrightarrow> j < i)
    \<and> (\<forall>i. i < length its \<longrightarrow> ready (drop i its) (its ! i))"
proof -
  from assms(1) have n: "nodes g = map node its" and o: "ordered its"
    by (simp_all add: sorted_graph_def its_def)
  have b: "i < j" if "i < length its" "j < length its" "item_group (its ! j) \<in> set (before (its ! i))" for i j
  proof -
    from that(3) have "precedes (its ! i) (its ! j)" by (simp add: precedes_def)
    with o that(1,2) show ?thesis by (rule ordered_nth)
  qed
  have c: "j < i" if "i < length its" "j < length its" "item_group (its ! j) \<in> set (after (its ! i))" for i j
  proof -
    from that(3) have "precedes (its ! j) (its ! i)" by (simp add: precedes_def)
    with o that(2,1) show ?thesis by (rule ordered_nth)
  qed
  have d: "ready (drop i its) (its ! i)" if "i < length its" for i
    using o that by (rule ordered_ready_nth)
  from n b c d show ?thesis by blast
qed

section \<open>The Graph Builder: the items it inserts\<close>

lemma first_seen_filter: "first_seen (s @ t) ys = filter (\<lambda>x. x \<notin> set s) (first_seen t ys)"
proof (induction ys arbitrary: t)
  case Nil
  show ?case by simp
next
  case (Cons y ys)
  have c1: "first_seen (s @ y # t) ys = first_seen (y # s @ t) ys"
    by (rule first_seen_set_cong) auto
  have c2: "first_seen (s @ y # t) ys = first_seen (s @ t) ys" if "y \<in> set s"
    by (rule first_seen_set_cong) (use that in auto)
  from Cons [of "y # t"] Cons [of t] c1 c2 show ?case by auto
qed

lemma dedup_filter: "filter (\<lambda>x. x \<notin> set s) (dedup_first_seen xs) = first_seen s xs"
  using first_seen_filter [of s "[]" xs] by (simp add: dedup_first_seen_def)

lemma first_seen_append:
  "first_seen seen (xs @ ys) = first_seen seen xs @ first_seen (xs @ seen) ys"
proof (induction xs arbitrary: seen)
  case Nil
  show ?case by simp
next
  case (Cons x xs)
  have c1: "first_seen (xs @ x # seen) ys = first_seen (x # xs @ seen) ys"
    by (rule first_seen_set_cong) auto
  have c2: "first_seen (xs @ seen) ys = first_seen (x # xs @ seen) ys" if "x \<in> set seen"
    by (rule first_seen_set_cong) (use that in auto)
  from Cons [of "x # seen"] Cons [of seen] c1 c2 show ?case by auto
qed

lemma dedup_append:
  "dedup_first_seen (xs @ ys) = dedup_first_seen xs @ filter (\<lambda>x. x \<notin> set xs) (dedup_first_seen ys)"
  using first_seen_append [of "[]" xs ys] dedup_filter [of xs ys] by (simp add: dedup_first_seen_def)

lemma dedup_Cons_filter:
  "dedup_first_seen (k # ks) = k # filter (\<lambda>x. x \<noteq> k) (dedup_first_seen ks)"
  using dedup_append [of "[k]" ks] by (simp add: dedup_first_seen_def)

lemma exists_group_iff: "exists_group g k \<longleftrightarrow> k \<in> item_group ` set (items g)"
  by (auto simp: exists_group_def list_ex_iff)

lemma key_items_append: "key_items n (xs @ ys) = key_items n xs @ key_items (n + length xs) ys"
  by (induction xs arbitrary: n) simp_all

lemma length_key_items: "length (key_items n ks) = length ks"
  by (induction ks arbitrary: n) simp_all

lemma group_key_items: "item_group ` set (key_items n ks) = set ks"
  by (induction ks arbitrary: n) (simp_all add: key_item_def)

lemma new_keys_Cons_old:
  assumes "k \<in> item_group ` set (items g)"
  shows "new_keys g (k # ks) = new_keys g ks"
proof -
  have "filter (\<lambda>x. x \<notin> item_group ` set (items g)) (filter (\<lambda>x. x \<noteq> k) (dedup_first_seen ks))
      = filter (\<lambda>x. x \<notin> item_group ` set (items g)) (dedup_first_seen ks)"
    unfolding filter_filter by (rule filter_cong) (use assms in auto)
  with assms show ?thesis
    by (simp add: new_keys_def dedup_Cons_filter)
qed

lemma new_keys_Cons_new:
  assumes "k \<notin> item_group ` set (items g)"
    and "item_group ` set (items g1) = insert k (item_group ` set (items g))"
  shows "new_keys g (k # ks) = k # new_keys g1 ks"
proof -
  have "filter (\<lambda>x. x \<notin> item_group ` set (items g)) (filter (\<lambda>x. x \<noteq> k) (dedup_first_seen ks))
      = filter (\<lambda>x. x \<notin> insert k (item_group ` set (items g))) (dedup_first_seen ks)"
    unfolding filter_filter by (rule filter_cong) auto
  with assms show ?thesis
    by (simp add: new_keys_def dedup_Cons_filter)
qed

lemma add_keys_items:
  "add_keys g ks = Inr g' \<Longrightarrow>
     mset (items g') = mset (items g) + mset (key_items (length (items g)) (new_keys g ks))"
proof (induction ks arbitrary: g)
  case Nil
  then show ?case by (simp add: new_keys_def dedup_first_seen_def)
next
  case (Cons k ks)
  show ?case
  proof (cases "exists_group g k")
    case True
    with Cons.prems have "add_keys g ks = Inr g'" by simp
    then have "mset (items g') = mset (items g) + mset (key_items (length (items g)) (new_keys g ks))"
      by (rule Cons.IH)
    moreover from True have "new_keys g (k # ks) = new_keys g ks"
      by (intro new_keys_Cons_old) (simp add: exists_group_iff)
    ultimately show ?thesis by simp
  next
    case False
    with Cons.prems obtain g1 where a: "add g (KeyNode k) k [] [] = Inr g1"
      and r: "add_keys g1 ks = Inr g'"
      by (auto split: sum.splits)
    from add_Inr(2) [OF a] have m1: "mset (items g1) = add_mset (key_item (length (items g)) k) (mset (items g))"
      by (simp add: key_item_def)
    then have "size (mset (items g1)) = Suc (size (mset (items g)))" by simp
    then have l1: "length (items g1) = Suc (length (items g))" by simp
    from m1 have "set_mset (mset (items g1)) = insert (key_item (length (items g)) k) (set (items g))"
      by simp
    then have "set (items g1) = insert (key_item (length (items g)) k) (set (items g))"
      by simp
    then have g1: "item_group ` set (items g1) = insert k (item_group ` set (items g))"
      by (simp add: key_item_def)
    from False have "k \<notin> item_group ` set (items g)"
      by (simp add: exists_group_iff)
    then have nk: "new_keys g (k # ks) = k # new_keys g1 ks"
      using g1 by (rule new_keys_Cons_new)
    from r have "mset (items g') = mset (items g1) + mset (key_items (length (items g1)) (new_keys g1 ks))"
      by (rule Cons.IH)
    with m1 l1 nk show ?thesis by simp
  qed
qed

lemma mset_eq_length_set:
  assumes "mset xs = mset ys + mset zs"
  shows "length xs = length ys + length zs" and "set xs = set ys \<union> set zs"
proof -
  from assms have "mset xs = mset (ys @ zs)" by simp
  then show "length xs = length ys + length zs"
    using mset_eq_length by fastforce
  from \<open>mset xs = mset (ys @ zs)\<close> have "set xs = set (ys @ zs)"
    by (rule mset_eq_setD)
  then show "set xs = set ys \<union> set zs" by simp
qed

lemma new_keys_append:
  assumes "item_group ` set (items g1) = item_group ` set (items g) \<union> set (new_keys g fs)"
  shows "new_keys g (fs @ ds) = new_keys g fs @ new_keys g1 ds"
proof -
  have "filter (\<lambda>x. x \<notin> item_group ` set (items g)) (filter (\<lambda>x. x \<notin> set fs) (dedup_first_seen ds))
      = filter (\<lambda>x. x \<notin> item_group ` set (items g1)) (dedup_first_seen ds)"
    unfolding filter_filter
    by (rule filter_cong) (auto simp: assms new_keys_def set_dedup_first_seen)
  then show ?thesis
    by (simp add: new_keys_def dedup_append)
qed

lemma addActionToGraph_items:
  assumes "addActionToGraph g n meta = Inr g'"
  shows "mset (items g') =
      mset (items g)
      + mset (key_items (length (items g)) (new_keys g (fulfills meta @ dependsOn meta)))
      + {#action_item (length (items g) + length (new_keys g (fulfills meta @ dependsOn meta))) n meta#}"
proof -
  from assms obtain g1 g2 where s1: "add_keys g (fulfills meta) = Inr g1"
    and s2: "add_keys g1 (dependsOn meta) = Inr g2"
    and s3: "add g2 n (group meta) (fulfills meta) (dependsOn meta) = Inr g'"
    by (auto simp: addActionToGraph_def split: sum.splits)
  let ?l = "length (items g)"
  let ?k1 = "new_keys g (fulfills meta)"
  let ?k2 = "new_keys g1 (dependsOn meta)"
  from add_keys_items [OF s1] have m1: "mset (items g1) = mset (items g) + mset (key_items ?l ?k1)" .
  from mset_eq_length_set [OF m1] have l1: "length (items g1) = ?l + length ?k1"
    and e1: "set (items g1) = set (items g) \<union> set (key_items ?l ?k1)"
    by (simp_all add: length_key_items)
  from e1 have "item_group ` set (items g1) = item_group ` set (items g) \<union> set ?k1"
    by (simp add: image_Un group_key_items)
  then have nk: "new_keys g (fulfills meta @ dependsOn meta) = ?k1 @ ?k2"
    by (rule new_keys_append)
  from add_keys_items [OF s2] have m2: "mset (items g2) = mset (items g1) + mset (key_items (length (items g1)) ?k2)" .
  from mset_eq_length_set(1) [OF m2] have l2: "length (items g2) = length (items g1) + length ?k2"
    by (simp add: length_key_items)
  from add_Inr(2) [OF s3] have m3: "mset (items g') = add_mset (action_item (length (items g2)) n meta) (mset (items g2))"
    by (simp add: action_item_def)
  from m1 m2 m3 l1 l2 nk show ?thesis
    by (simp add: key_items_append add.assoc)
qed

section \<open>Contradictory constraints\<close>

lemma has_group_mono: "set (items g) \<subseteq> set (items g') \<Longrightarrow> has_group g k \<Longrightarrow> has_group g' k"
  by (auto simp: has_group_def)

lemma has_edges_mono: "set (items g) \<subseteq> set (items g') \<Longrightarrow> has_edges g x y \<Longrightarrow> has_edges g' x y"
  by (auto simp: has_edges_def list_ex_iff)

lemma sorted_graph_no_cycle:
  assumes "sorted_graph g" and "has_edges g x y" and "has_edges g y x"
    and "has_group g x" and "has_group g y"
  shows False
proof -
  let ?ys = "items g"
  from assms(1) have o: "ordered ?ys" by (simp add: sorted_graph_def)
  have idx: "\<exists>i. i < length ?ys \<and> ?ys ! i = c" if "c \<in> set ?ys" for c
    using that by (simp only: in_set_conv_nth)
  from assms(2) obtain a where "a \<in> set ?ys" and a: "x \<in> set (before a)" "y \<in> set (after a)"
    by (auto simp: has_edges_def list_ex_iff)
  with idx obtain ia where ia: "ia < length ?ys" "x \<in> set (before (?ys ! ia))" "y \<in> set (after (?ys ! ia))"
    by blast
  from assms(3) obtain b where "b \<in> set ?ys" and b: "y \<in> set (before b)" "x \<in> set (after b)"
    by (auto simp: has_edges_def list_ex_iff)
  with idx obtain ib where ib: "ib < length ?ys" "y \<in> set (before (?ys ! ib))" "x \<in> set (after (?ys ! ib))"
    by blast
  from assms(4) obtain c where "c \<in> set ?ys" and "item_group c = x"
    by (auto simp: has_group_def)
  with idx obtain kx where kx: "kx < length ?ys" "item_group (?ys ! kx) = x"
    by blast
  from assms(5) obtain d where "d \<in> set ?ys" and "item_group d = y"
    by (auto simp: has_group_def)
  with idx obtain ky where ky: "ky < length ?ys" "item_group (?ys ! ky) = y"
    by blast
  from ia kx have "precedes (?ys ! ia) (?ys ! kx)" by (simp add: precedes_def)
  with o ia(1) kx(1) have 1: "ia < kx" by (rule ordered_nth)
  from ib kx have "precedes (?ys ! kx) (?ys ! ib)" by (simp add: precedes_def)
  with o kx(1) ib(1) have 2: "kx < ib" by (rule ordered_nth)
  from ib ky have "precedes (?ys ! ib) (?ys ! ky)" by (simp add: precedes_def)
  with o ib(1) ky(1) have 3: "ib < ky" by (rule ordered_nth)
  from ia ky have "precedes (?ys ! ky) (?ys ! ia)" by (simp add: precedes_def)
  with o ky(1) ia(1) have 4: "ky < ia" by (rule ordered_nth)
  from 1 2 3 4 show False by linarith
qed

lemma addActionToGraph_has:
  assumes "addActionToGraph g n meta = Inr g'"
  shows "set (items g) \<subseteq> set (items g')"
    and "k \<in> set (fulfills meta) \<union> set (dependsOn meta) \<Longrightarrow> has_group g' k"
    and "x \<in> set (fulfills meta) \<Longrightarrow> y \<in> set (dependsOn meta) \<Longrightarrow> has_edges g' x y"
proof -
  let ?ks = "new_keys g (fulfills meta @ dependsOn meta)"
  let ?a = "action_item (length (items g) + length ?ks) n meta"
  from addActionToGraph_items [OF assms]
  have "mset (items g') = mset (items g) + mset (key_items (length (items g)) ?ks @ [?a])"
    by simp
  from mset_eq_length_set(2) [OF this]
  have s: "set (items g') = set (items g) \<union> set (key_items (length (items g)) ?ks) \<union> {?a}"
    by simp
  then show "set (items g) \<subseteq> set (items g')" by blast
  from s have gr: "item_group ` set (items g') = item_group ` set (items g) \<union> set ?ks \<union> {item_group ?a}"
    by (simp add: image_Un group_key_items)
  show "has_group g' k" if "k \<in> set (fulfills meta) \<union> set (dependsOn meta)"
  proof (cases "k \<in> item_group ` set (items g)")
    case True
    with gr show ?thesis by (simp add: has_group_def)
  next
    case False
    with that have "k \<in> set ?ks"
      by (simp add: new_keys_def set_dedup_first_seen)
    with gr show ?thesis by (simp add: has_group_def)
  qed
  show "has_edges g' x y" if "x \<in> set (fulfills meta)" "y \<in> set (dependsOn meta)"
  proof -
    from s have "?a \<in> set (items g')" by simp
    moreover from that have "x \<in> set (before ?a) \<and> y \<in> set (after ?a)"
      by (simp add: action_item_def)
    ultimately show ?thesis by (auto simp: has_edges_def list_ex_iff)
  qed
qed

lemma add_classes_mono: "add_classes st g cs = Inr g' \<Longrightarrow> set (items g) \<subseteq> set (items g')"
proof (induction cs arbitrary: g)
  case Nil
  then show ?case by simp
next
  case (Cons c cs)
  from Cons.prems obtain meta :: ActionMetadata and g1
    where a: "addActionToGraph g (ClassMetadataNode c) meta = Inr g1"
    and r: "add_classes st g1 cs = Inr g'"
    by (auto split: option.splits sum.splits)
  from addActionToGraph_has(1) [OF a] Cons.IH [OF r] show ?case by blast
qed

lemma add_classes_has:
  assumes "add_classes st g cs = Inr g'" and "c \<in> set cs" and "classMetadata st c = Some meta"
  shows "k \<in> set (fulfills meta) \<union> set (dependsOn meta) \<Longrightarrow> has_group g' k"
    and "x \<in> set (fulfills meta) \<Longrightarrow> y \<in> set (dependsOn meta) \<Longrightarrow> has_edges g' x y"
proof -
  have "(k \<in> set (fulfills meta) \<union> set (dependsOn meta) \<longrightarrow> has_group g' k)
      \<and> (x \<in> set (fulfills meta) \<longrightarrow> y \<in> set (dependsOn meta) \<longrightarrow> has_edges g' x y)"
    using assms
  proof (induction cs arbitrary: g)
    case Nil
    then show ?case by simp
  next
    case (Cons d cs)
    from Cons.prems(1) obtain md :: ActionMetadata and g1
      where md: "classMetadata st d = Some md"
      and a: "addActionToGraph g (ClassMetadataNode d) md = Inr g1"
      and r: "add_classes st g1 cs = Inr g'"
      by (auto split: option.splits sum.splits)
    show ?case
    proof (cases "c \<in> set cs")
      case True
      with r Cons.prems(3) show ?thesis by (intro Cons.IH)
    next
      case False
      with Cons.prems(2) have "d = c" by simp
      with md Cons.prems(3) have "md = meta" by simp
      from add_classes_mono [OF r] have m: "set (items g1) \<subseteq> set (items g')" .
      from addActionToGraph_has(2) [OF a] addActionToGraph_has(3) [OF a] \<open>md = meta\<close>
      have "(k \<in> set (fulfills meta) \<union> set (dependsOn meta) \<longrightarrow> has_group g1 k)
          \<and> (x \<in> set (fulfills meta) \<longrightarrow> y \<in> set (dependsOn meta) \<longrightarrow> has_edges g1 x y)"
        by blast
      with m show ?thesis
        by (blast intro: has_group_mono has_edges_mono)
    qed
  qed
  then show "k \<in> set (fulfills meta) \<union> set (dependsOn meta) \<Longrightarrow> has_group g' k"
    and "x \<in> set (fulfills meta) \<Longrightarrow> y \<in> set (dependsOn meta) \<Longrightarrow> has_edges g' x y"
    by blast+
qed

section \<open>The store during a sort\<close>

lemma store_extends_refl: "store_extends st st"
  by (simp add: store_extends_def)

lemma store_extends_trans: "store_extends a b \<Longrightarrow> store_extends b c \<Longrightarrow> store_extends a c"
  unfolding store_extends_def by (simp add: subset_iff)

lemma store_extends_nth:
  assumes "store_extends st st'" and "r < length (methodObjects st)"
  shows "fulfills (methodObjects st' ! r) = fulfills (methodObjects st ! r)"
    and "set (dependsOn (methodObjects st ! r)) \<subseteq> set (dependsOn (methodObjects st' ! r))"
    and "r < length (methodObjects st')"
    and "group (methodObjects st' ! r) = group (methodObjects st ! r)"
  using assms by (auto simp: store_extends_def)

lemma store_extends_update:
  assumes "fulfills m' = fulfills (methodObjects st ! r)"
    and "set (dependsOn (methodObjects st ! r)) \<subseteq> set (dependsOn m')"
    and "group m' = group (methodObjects st ! r)"
  shows "store_extends st (st\<lparr>methodObjects := (methodObjects st)[r := m']\<rparr>)"
proof (cases "r < length (methodObjects st)")
  case True
  with assms show ?thesis
    by (auto simp: store_extends_def nth_list_update)
next
  case False
  then have "(methodObjects st)[r := m'] = methodObjects st"
    by (intro list_update_beyond) simp
  then show ?thesis
    by (simp add: store_extends_def)
qed

lemma store_extends_set_actionClass: "store_extends st (set_actionClass d r st)"
  unfolding set_actionClass_def by (rule store_extends_update) simp_all

lemma store_extends_push: "store_extends st (push_dependsOn r g st)"
  unfolding push_dependsOn_def by (rule store_extends_update) auto

lemma store_extends_fold_set_actionClass:
  "store_extends st (fold (\<lambda>(m, r). set_actionClass d r) ms st)"
proof (induction ms arbitrary: st)
  case Nil
  show ?case by (simp add: store_extends_refl)
next
  case (Cons mr ms)
  obtain m r where mr: "mr = (m, r)" by (cases mr)
  have "store_extends st (set_actionClass d r st)"
    by (rule store_extends_set_actionClass)
  moreover have "store_extends (set_actionClass d r st) (fold (\<lambda>(m, r). set_actionClass d r) ms (set_actionClass d r st))"
    by (rule Cons.IH)
  ultimately show ?case
    unfolding mr by (simp add: store_extends_trans)
qed

lemma classObjects_set_actionClass: "classObjects (set_actionClass d r st) = classObjects st"
  by (simp add: set_actionClass_def)

lemma classObjects_fold_set_actionClass:
  "classObjects (fold (\<lambda>(m, r). set_actionClass d r) ms st) = classObjects st"
  by (induction ms arbitrary: st) (auto simp: classObjects_set_actionClass)

lemma inspectAction_result:
  assumes "inspectAction st c = (d, st1)"
  shows "d = length (classObjects st)"
    and "classObjects st1 = classObjects st @
           [\<lparr>class_metadata = classMetadata st c,
             methods = (case methodsMetadata st c of None \<Rightarrow> [] | Some mm \<Rightarrow> mm)\<rparr>]"
    and "store_extends st st1"
proof -
  let ?ms = "case methodsMetadata st c of None \<Rightarrow> [] | Some mm \<Rightarrow> mm"
  let ?st0 = "st\<lparr>classObjects := classObjects st @ [\<lparr>class_metadata = classMetadata st c, methods = ?ms\<rparr>]\<rparr>"
  from assms have d: "d = length (classObjects st)"
    by (auto simp: inspectAction_def Let_def)
  from assms have st1: "st1 = fold (\<lambda>(m, r). set_actionClass d r) ?ms ?st0"
    by (auto simp: inspectAction_def Let_def)
  show "d = length (classObjects st)" by (rule d)
  show "classObjects st1 = classObjects st @ [\<lparr>class_metadata = classMetadata st c, methods = ?ms\<rparr>]"
    unfolding st1 by (simp add: classObjects_fold_set_actionClass)
  have "store_extends st ?st0"
    by (simp add: store_extends_def)
  moreover have "store_extends ?st0 st1"
    unfolding st1 by (rule store_extends_fold_set_actionClass)
  ultimately show "store_extends st st1" by (rule store_extends_trans)
qed

lemma add_methods_result:
  assumes "add_methods pushed st g ms = (Inr g', st')"
  shows "store_extends st st'" and "set (items g) \<subseteq> set (items g')"
proof -
  have "store_extends st st' \<and> set (items g) \<subseteq> set (items g')"
    using assms
  proof (induction ms arbitrary: st g)
    case Nil
    then show ?case by (simp add: store_extends_refl)
  next
    case (Cons mr ms)
    obtain m r where mr: "mr = (m, r)" by (cases mr)
    define st1 where "st1 = (case pushed of None \<Rightarrow> st | Some cg \<Rightarrow> push_dependsOn r cg st)"
    from Cons.prems obtain g1 where a: "addActionToGraph g (MethodNode r) (methodObjects st1 ! r) = Inr g1"
      and r: "add_methods pushed st1 g1 ms = (Inr g', st')"
      unfolding mr st1_def by (auto simp: Let_def split: if_splits sum.splits)
    have e: "store_extends st st1"
      unfolding st1_def by (cases pushed) (simp_all add: store_extends_refl store_extends_push)
    from Cons.IH [OF r] have "store_extends st1 st'" and "set (items g1) \<subseteq> set (items g')"
      by simp_all
    with e addActionToGraph_has(1) [OF a] show ?case
      by (blast intro: store_extends_trans)
  qed
  then show "store_extends st st'" and "set (items g) \<subseteq> set (items g')" by simp_all
qed

lemma add_methods_has:
  assumes "add_methods pushed st g ms = (Inr g', st')" and "(m, r) \<in> set ms"
    and "x \<in> set (fulfills (methodObjects st ! r))" and "y \<in> set (dependsOn (methodObjects st ! r))"
    and "r < length (methodObjects st)"
  shows "has_group g' x \<and> has_group g' y \<and> has_edges g' x y"
  using assms
proof (induction ms arbitrary: st g)
  case Nil
  then show ?case by simp
next
  case (Cons mr ms)
  obtain m0 r0 where mr: "mr = (m0, r0)" by (cases mr)
  define st1 where "st1 = (case pushed of None \<Rightarrow> st | Some cg \<Rightarrow> push_dependsOn r0 cg st)"
  from Cons.prems(1) obtain g1 where a: "addActionToGraph g (MethodNode r0) (methodObjects st1 ! r0) = Inr g1"
    and rest: "add_methods pushed st1 g1 ms = (Inr g', st')"
    and r0: "r0 < length (methodObjects st)"
    unfolding mr st1_def by (auto simp: Let_def split: if_splits sum.splits)
  have e: "store_extends st st1"
    unfolding st1_def by (cases pushed) (simp_all add: store_extends_refl store_extends_push)
  show ?case
  proof (cases "(m, r) \<in> set ms")
    case True
    from Cons.prems(5) have rl0: "r < length (methodObjects st)" .
    with e have rl: "r < length (methodObjects st1)" by (simp add: store_extends_def)
    from store_extends_nth [OF e rl0] Cons.prems(3,4)
    have "x \<in> set (fulfills (methodObjects st1 ! r))" "y \<in> set (dependsOn (methodObjects st1 ! r))"
      by auto
    with rest True rl show ?thesis by (intro Cons.IH)
  next
    case False
    with Cons.prems(2) mr have "r0 = r" by simp
    from store_extends_nth [OF e r0] Cons.prems(3,4) \<open>r0 = r\<close>
    have "x \<in> set (fulfills (methodObjects st1 ! r0))" "y \<in> set (dependsOn (methodObjects st1 ! r0))"
      by auto
    with addActionToGraph_has(2,3) [OF a]
    have "has_group g1 x \<and> has_group g1 y \<and> has_edges g1 x y" by simp
    with add_methods_result(2) [OF rest] show ?thesis
      by (blast intro: has_group_mono has_edges_mono)
  qed
qed

lemma sortActions_loop_step:
  assumes "sortActions_loop ic st g (c # cs) = (Inr g', st')"
  obtains d st1 g1 pushed g2 st2 where "inspectAction st c = (d, st1)"
    and "set (items g) \<subseteq> set (items g1)"
    and "add_methods pushed st1 g1 (case methodsMetadata st c of None \<Rightarrow> [] | Some mm \<Rightarrow> mm) = (Inr g2, st2)"
    and "sortActions_loop ic st2 g2 cs = (Inr g', st')"
proof -
  obtain d st1 where i: "inspectAction st c = (d, st1)" by (cases "inspectAction st c")
  define meta where "meta = classObjects st1 ! d"
  from inspectAction_result(1,2) [OF i]
  have ms: "methods meta = (case methodsMetadata st c of None \<Rightarrow> [] | Some mm \<Rightarrow> mm)"
    by (simp add: meta_def)
  show thesis
  proof (cases ic)
    case True
    with assms i obtain cm :: ActionMetadata and g1 g2 st2
      where a: "addActionToGraph g (ClassNode d) cm = Inr g1"
      and m: "add_methods (Some (group cm)) st1 g1 (methods meta) = (Inr g2, st2)"
      and r: "sortActions_loop ic st2 g2 cs = (Inr g', st')"
      unfolding meta_def by (auto simp: Let_def split: option.splits sum.splits prod.splits)
    from addActionToGraph_has(1) [OF a] i m r that show thesis
      unfolding ms by blast
  next
    case False
    with assms i obtain g2 st2 where
      m: "add_methods None st1 g (methods meta) = (Inr g2, st2)"
      and r: "sortActions_loop ic st2 g2 cs = (Inr g', st')"
      unfolding meta_def by (auto simp: Let_def split: option.splits sum.splits prod.splits)
    from i m r that [of d st1 g None g2 st2] show thesis
      unfolding ms by blast
  qed
qed

lemma sortActions_loop_result:
  assumes "sortActions_loop ic st g cs = (Inr g', st')"
  shows "store_extends st st'" and "set (items g) \<subseteq> set (items g')"
proof -
  have "store_extends st st' \<and> set (items g) \<subseteq> set (items g')"
    using assms
  proof (induction cs arbitrary: st g)
    case Nil
    then show ?case by (simp add: store_extends_refl)
  next
    case (Cons c cs)
    from Cons.prems obtain d st1 g1 pushed g2 st2 where i: "inspectAction st c = (d, st1)"
      and g1: "set (items g) \<subseteq> set (items g1)"
      and m: "add_methods pushed st1 g1 (case methodsMetadata st c of None \<Rightarrow> [] | Some mm \<Rightarrow> mm) = (Inr g2, st2)"
      and r: "sortActions_loop ic st2 g2 cs = (Inr g', st')"
      by (rule sortActions_loop_step)
    from inspectAction_result(3) [OF i] add_methods_result(1) [OF m] Cons.IH [OF r]
    have "store_extends st st'"
      by (blast intro: store_extends_trans)
    moreover from g1 add_methods_result(2) [OF m] Cons.IH [OF r]
    have "set (items g) \<subseteq> set (items g')" by blast
    ultimately show ?case by simp
  qed
  then show "store_extends st st'" and "set (items g) \<subseteq> set (items g')" by simp_all
qed

lemma sortActions_loop_has:
  assumes "sortActions_loop ic st g cs = (Inr g', st')" and "c \<in> set cs"
    and "methodsMetadata st c = Some ms" and "(m, r) \<in> set ms"
    and "r < length (methodObjects st)"
    and "x \<in> set (fulfills (methodObjects st ! r))" and "y \<in> set (dependsOn (methodObjects st ! r))"
  shows "has_group g' x \<and> has_group g' y \<and> has_edges g' x y"
  using assms
proof (induction cs arbitrary: st g)
  case Nil
  then show ?case by simp
next
  case (Cons c0 cs)
  from Cons.prems(1) obtain d st1 g1 pushed g2 st2 where i: "inspectAction st c0 = (d, st1)"
    and g1: "set (items g) \<subseteq> set (items g1)"
    and am: "add_methods pushed st1 g1 (case methodsMetadata st c0 of None \<Rightarrow> [] | Some mm \<Rightarrow> mm) = (Inr g2, st2)"
    and rest: "sortActions_loop ic st2 g2 cs = (Inr g', st')"
    by (rule sortActions_loop_step)
  have e1: "store_extends st st1" by (rule inspectAction_result(3) [OF i])
  have e2: "store_extends st1 st2" by (rule add_methods_result(1) [OF am])
  from e1 e2 have e: "store_extends st st2" by (rule store_extends_trans)
  show ?case
  proof (cases "c \<in> set cs")
    case True
    from e Cons.prems(3) have "methodsMetadata st2 c = Some ms"
      by (simp add: store_extends_def)
    moreover from store_extends_nth [OF e Cons.prems(5)] Cons.prems(6,7)
    have "r < length (methodObjects st2)" "x \<in> set (fulfills (methodObjects st2 ! r))"
      "y \<in> set (dependsOn (methodObjects st2 ! r))"
      by auto
    ultimately show ?thesis
      using rest True Cons.prems(4) by (intro Cons.IH)
  next
    case False
    with Cons.prems(2) have "c0 = c" by simp
    with am Cons.prems(3) have am': "add_methods pushed st1 g1 ms = (Inr g2, st2)" by simp
    from store_extends_nth [OF e1 Cons.prems(5)] Cons.prems(6,7)
    have "r < length (methodObjects st1)" "x \<in> set (fulfills (methodObjects st1 ! r))"
      "y \<in> set (dependsOn (methodObjects st1 ! r))"
      by auto
    with am' Cons.prems(4) have "has_group g2 x \<and> has_group g2 y \<and> has_edges g2 x y"
      by (intro add_methods_has)
    with sortActions_loop_result(2) [OF rest] show ?thesis
      by (blast intro: has_group_mono has_edges_mono)
  qed
qed

section \<open>No order for cyclic constraints\<close>

lemma ordered_first_index:
  assumes "ordered ys" and "a \<in> set ys" and "b \<in> set ys" and "precedes a b"
  shows "(LEAST i. i < length ys \<and> ys ! i = a) < (LEAST j. j < length ys \<and> ys ! j = b)"
proof -
  define ia where "ia = (LEAST i. i < length ys \<and> ys ! i = a)"
  define ib where "ib = (LEAST j. j < length ys \<and> ys ! j = b)"
  from assms(2) have "\<exists>i. i < length ys \<and> ys ! i = a" by (simp only: in_set_conv_nth)
  then have "ia < length ys \<and> ys ! ia = a" unfolding ia_def by (rule LeastI_ex)
  then have a: "ia < length ys" "ys ! ia = a" by blast+
  from assms(3) have "\<exists>j. j < length ys \<and> ys ! j = b" by (simp only: in_set_conv_nth)
  then have "ib < length ys \<and> ys ! ib = b" unfolding ib_def by (rule LeastI_ex)
  then have b: "ib < length ys" "ys ! ib = b" by blast+
  from assms(4) have "precedes (ys ! ia) (ys ! ib)" by (simp only: a b)
  with assms(1) a(1) b(1) have "ia < ib" by (rule ordered_nth)
  then show ?thesis by (simp only: ia_def ib_def)
qed

lemma chain_first_last:
  assumes "ordered ys" and "chain (a # rest)" and "rest \<noteq> []" and "set (a # rest) \<subseteq> set ys"
  shows "(LEAST i. i < length ys \<and> ys ! i = a) < (LEAST i. i < length ys \<and> ys ! i = last rest)"
  using assms(2-4)
proof (induction rest arbitrary: a)
  case Nil
  then show ?case by simp
next
  case (Cons b rest)
  from Cons.prems have p: "precedes a b" and ab: "a \<in> set ys" "b \<in> set ys" by simp_all
  from assms(1) ab p have 1: "(LEAST i. i < length ys \<and> ys ! i = a) < (LEAST i. i < length ys \<and> ys ! i = b)"
    by (rule ordered_first_index)
  show ?case
  proof (cases rest)
    case Nil
    with 1 show ?thesis by simp
  next
    case (Cons c rest')
    with Cons.prems have "chain (b # rest)" "rest \<noteq> []" "set (b # rest) \<subseteq> set ys" by simp_all
    then have "(LEAST i. i < length ys \<and> ys ! i = b) < (LEAST i. i < length ys \<and> ys ! i = last rest)"
      by (rule Cons.IH)
    with 1 Cons show ?thesis by simp
  qed
qed

lemma ordered_no_cycle: "ordered ys \<Longrightarrow> \<not> constraint_cycle ys c"
proof
  assume o: "ordered ys" and c: "constraint_cycle ys c"
  from c obtain a rest where ar: "c = a # rest" by (cases c) (simp_all add: constraint_cycle_def)
  from c have s: "set (a # (rest @ [a])) \<subseteq> set ys" and ch: "chain (a # (rest @ [a]))"
    by (auto simp: constraint_cycle_def ar list_all_iff)
  from o ch _ s have "(LEAST i. i < length ys \<and> ys ! i = a) < (LEAST i. i < length ys \<and> ys ! i = last (rest @ [a]))"
    by (rule chain_first_last) simp
  then show False by simp
qed

section \<open>Declared constraints and the graph\<close>

lemma covers_iff:
  "covers g d \<longleftrightarrow>
     (\<exists>i\<in>set (items g). item_group i = d_group d
        \<and> set (d_before d) \<subseteq> set (before i) \<and> set (d_after d) \<subseteq> set (after i))"
  by (simp add: covers_def list_ex_iff)

lemma covers_mono: "set (items g) \<subseteq> set (items g') \<Longrightarrow> covers g d \<Longrightarrow> covers g' d"
  unfolding covers_iff by blast

lemma covers_key: "has_group g k \<Longrightarrow> covers g (declared_key k)"
  unfolding covers_iff has_group_def declared_key_def by auto

lemma addActionToGraph_item:
  assumes "addActionToGraph g n meta = Inr g'"
  shows "\<exists>i\<in>set (items g'). item_group i = group meta \<and> before i = fulfills meta
           \<and> after i = dependsOn meta"
proof -
  let ?ks = "new_keys g (fulfills meta @ dependsOn meta)"
  let ?a = "action_item (length (items g) + length ?ks) n meta"
  from addActionToGraph_items [OF assms]
  have "mset (items g') = mset (items g) + mset (key_items (length (items g)) ?ks @ [?a])"
    by simp
  from mset_eq_length_set(2) [OF this] have "?a \<in> set (items g')"
    by simp
  moreover have "item_group ?a = group meta \<and> before ?a = fulfills meta \<and> after ?a = dependsOn meta"
    by (simp add: action_item_def)
  ultimately show ?thesis by blast
qed

text \<open>
  An action is inserted with metadata \<open>meta\<close>; \<open>m\<close> has the same group, the same keys to
  precede and at most the keys to follow that \<open>meta\<close> has. Then the graph covers all that
  \<open>m\<close> declares.
\<close>

lemma declarations_covered:
  assumes a: "addActionToGraph g n meta = Inr g'"
    and g: "group m = group meta" and f: "fulfills m = fulfills meta"
    and d: "set (dependsOn m) \<subseteq> set (dependsOn meta)"
    and m: "x \<in> set (declarations m)"
  shows "covers g' x"
proof -
  from m consider "x = declared_action m"
    | k where "k \<in> set (fulfills m) \<union> set (dependsOn m)" "x = declared_key k"
    by (auto simp: declarations_def)
  then show ?thesis
  proof cases
    case 1
    from addActionToGraph_item [OF a] obtain i where "i \<in> set (items g')"
      and "item_group i = group meta" "before i = fulfills meta" "after i = dependsOn meta"
      by blast
    with g f d have "i \<in> set (items g') \<and> item_group i = d_group (declared_action m)
        \<and> set (d_before (declared_action m)) \<subseteq> set (before i)
        \<and> set (d_after (declared_action m)) \<subseteq> set (after i)"
      by (simp add: declared_action_def)
    then show ?thesis
      unfolding covers_iff 1 by blast
  next
    case 2
    from 2(1) f d have "k \<in> set (fulfills meta) \<union> set (dependsOn meta)" by auto
    then have "has_group g' k" by (rule addActionToGraph_has(2) [OF a])
    then show ?thesis unfolding 2(2) by (rule covers_key)
  qed
qed

lemma add_classes_covers:
  assumes "add_classes st g cs = Inr g'" and "x \<in> set (class_declarations st cs)"
  shows "covers g' x"
  using assms
proof (induction cs arbitrary: g)
  case Nil
  then show ?case by (simp add: class_declarations_def)
next
  case (Cons c cs)
  from Cons.prems(1) obtain meta :: ActionMetadata and g1
    where md: "classMetadata st c = Some meta"
    and a: "addActionToGraph g (ClassMetadataNode c) meta = Inr g1"
    and r: "add_classes st g1 cs = Inr g'"
    by (auto split: option.splits sum.splits)
  from Cons.prems(2) md consider "x \<in> set (declarations meta)" | "x \<in> set (class_declarations st cs)"
    by (auto simp: class_declarations_def)
  then show ?case
  proof cases
    case 1
    with a have "covers g1 x"
      by (intro declarations_covered [of g "ClassMetadataNode c" meta g1 meta]) simp_all
    with add_classes_mono [OF r] show ?thesis by (rule covers_mono)
  next
    case 2
    with r show ?thesis by (rule Cons.IH)
  qed
qed

lemma dependsOn_push:
  "r < length (methodObjects st) \<Longrightarrow>
     dependsOn (methodObjects (push_dependsOn r cg st) ! r) = dependsOn (methodObjects st ! r) @ [cg]"
  by (simp add: push_dependsOn_def)

lemma add_methods_covers:
  assumes "add_methods pushed st g ms = (Inr g', st')" and "(n, r) \<in> set ms"
    and "r < length (methodObjects st)"
    and "group m = group (methodObjects st ! r)"
    and "fulfills m = fulfills (methodObjects st ! r)"
    and "set (dependsOn m) \<subseteq> set (dependsOn (methodObjects st ! r)) \<union> set_option pushed"
    and "x \<in> set (declarations m)"
  shows "covers g' x"
  using assms(1-6)
proof (induction ms arbitrary: st g)
  case Nil
  then show ?case by simp
next
  case (Cons mr ms)
  obtain n0 r0 where mr: "mr = (n0, r0)" by (cases mr)
  define st1 where "st1 = (case pushed of None \<Rightarrow> st | Some cg \<Rightarrow> push_dependsOn r0 cg st)"
  from Cons.prems(1) obtain g1 where a: "addActionToGraph g (MethodNode r0) (methodObjects st1 ! r0) = Inr g1"
    and rest: "add_methods pushed st1 g1 ms = (Inr g', st')"
    and r0: "r0 < length (methodObjects st)"
    unfolding mr st1_def by (auto simp: Let_def split: if_splits sum.splits)
  have e: "store_extends st st1"
    unfolding st1_def by (cases pushed) (simp_all add: store_extends_refl store_extends_push)
  note n = store_extends_nth [OF e Cons.prems(3)]
  show ?case
  proof (cases "(n, r) \<in> set ms")
    case True
    from n(3) have 3: "r < length (methodObjects st1)" .
    from n(4) Cons.prems(4) have 4: "group m = group (methodObjects st1 ! r)" by simp
    from n(1) Cons.prems(5) have 5: "fulfills m = fulfills (methodObjects st1 ! r)" by simp
    from n(2) Cons.prems(6)
    have 6: "set (dependsOn m) \<subseteq> set (dependsOn (methodObjects st1 ! r)) \<union> set_option pushed"
      by blast
    from rest True 3 4 5 6 show ?thesis by (rule Cons.IH)
  next
    case False
    with Cons.prems(2) mr have rr: "r0 = r" by simp
    have "set (dependsOn m) \<subseteq> set (dependsOn (methodObjects st1 ! r))"
    proof (cases pushed)
      case None
      with Cons.prems(6) show ?thesis by (simp add: st1_def)
    next
      case (Some cg)
      with Cons.prems(3) have "dependsOn (methodObjects st1 ! r) = dependsOn (methodObjects st ! r) @ [cg]"
        by (simp add: st1_def rr dependsOn_push)
      with Cons.prems(6) Some show ?thesis by auto
    qed
    moreover from n(4) Cons.prems(4) have "group m = group (methodObjects st1 ! r)" by simp
    moreover from n(1) Cons.prems(5) have "fulfills m = fulfills (methodObjects st1 ! r)" by simp
    ultimately have "covers g1 x"
      using a assms(7) unfolding rr by (intro declarations_covered [of g "MethodNode r" "methodObjects st1 ! r" g1 m])
    with add_methods_result(2) [OF rest] show ?thesis by (rule covers_mono)
  qed
qed

text \<open>One round of the outer loop of \<^verbatim>\<open>sortActions\<close> that did not fail.\<close>

lemma sortActions_loop_round:
  assumes "sortActions_loop ic st g (c # cs) = (Inr g', st')"
  obtains d st1 g1 g2 st2 where "inspectAction st c = (d, st1)"
    and "set (items g) \<subseteq> set (items g1)"
    and "ic \<longrightarrow> (\<exists>cm. classMetadata st c = Some cm \<and> addActionToGraph g (ClassNode d) cm = Inr g1)"
    and "add_methods (if ic then map_option group (classMetadata st c) else None) st1 g1
           (case methodsMetadata st c of None \<Rightarrow> [] | Some mm \<Rightarrow> mm) = (Inr g2, st2)"
    and "sortActions_loop ic st2 g2 cs = (Inr g', st')"
proof -
  obtain d st1 where i: "inspectAction st c = (d, st1)" by (cases "inspectAction st c")
  define meta where "meta = classObjects st1 ! d"
  from inspectAction_result(1,2) [OF i]
  have ms: "methods meta = (case methodsMetadata st c of None \<Rightarrow> [] | Some mm \<Rightarrow> mm)"
    and cmeta: "class_metadata meta = classMetadata st c"
    by (simp_all add: meta_def)
  show thesis
  proof (cases ic)
    case True
    with assms i obtain cm :: ActionMetadata and g1 g2 st2
      where c: "class_metadata meta = Some cm"
      and a: "addActionToGraph g (ClassNode d) cm = Inr g1"
      and m: "add_methods (Some (group cm)) st1 g1 (methods meta) = (Inr g2, st2)"
      and r: "sortActions_loop ic st2 g2 cs = (Inr g', st')"
      unfolding meta_def by (auto simp: Let_def split: option.splits sum.splits prod.splits)
    from c cmeta have cm: "classMetadata st c = Some cm" by simp
    from m True cm have m': "add_methods (if ic then map_option group (classMetadata st c) else None) st1 g1
           (case methodsMetadata st c of None \<Rightarrow> [] | Some mm \<Rightarrow> mm) = (Inr g2, st2)"
      by (simp add: ms)
    from cm a have "ic \<longrightarrow> (\<exists>cm. classMetadata st c = Some cm \<and> addActionToGraph g (ClassNode d) cm = Inr g1)"
      by blast
    with i addActionToGraph_has(1) [OF a] m' r that show thesis
      by blast
  next
    case False
    with assms i obtain g2 st2 where
      m: "add_methods None st1 g (methods meta) = (Inr g2, st2)"
      and r: "sortActions_loop ic st2 g2 cs = (Inr g', st')"
      unfolding meta_def by (auto simp: Let_def split: option.splits sum.splits prod.splits)
    from m False have m': "add_methods (if ic then map_option group (classMetadata st c) else None) st1 g
           (case methodsMetadata st c of None \<Rightarrow> [] | Some mm \<Rightarrow> mm) = (Inr g2, st2)"
      by (simp add: ms)
    from False i m' r that [of d st1 g g2 st2] show thesis
      by blast
  qed
qed

lemma sortActions_loop_covers_class:
  assumes "sortActions_loop True st g cs = (Inr g', st')" and "c \<in> set cs"
    and "classMetadata st c = Some cm" and "x \<in> set (declarations cm)"
  shows "covers g' x"
  using assms(1-3)
proof (induction cs arbitrary: st g)
  case Nil
  then show ?case by simp
next
  case (Cons c0 cs)
  from Cons.prems(1) obtain d st1 g1 g2 st2 where i: "inspectAction st c0 = (d, st1)"
    and g1: "set (items g) \<subseteq> set (items g1)"
    and cl: "True \<longrightarrow> (\<exists>cm. classMetadata st c0 = Some cm \<and> addActionToGraph g (ClassNode d) cm = Inr g1)"
    and am: "add_methods (if True then map_option group (classMetadata st c0) else None) st1 g1
           (case methodsMetadata st c0 of None \<Rightarrow> [] | Some mm \<Rightarrow> mm) = (Inr g2, st2)"
    and rest: "sortActions_loop True st2 g2 cs = (Inr g', st')"
    by (rule sortActions_loop_round)
  have e1: "store_extends st st1" by (rule inspectAction_result(3) [OF i])
  have e2: "store_extends st1 st2" by (rule add_methods_result(1) [OF am])
  from e1 e2 have e: "store_extends st st2" by (rule store_extends_trans)
  show ?case
  proof (cases "c \<in> set cs")
    case True
    from e Cons.prems(3) have "classMetadata st2 c = Some cm"
      by (simp add: store_extends_def)
    with rest True show ?thesis by (rule Cons.IH)
  next
    case False
    with Cons.prems(2) have "c0 = c" by simp
    with cl Cons.prems(3) have a: "addActionToGraph g (ClassNode d) cm = Inr g1" by auto
    from a have "covers g1 x"
      using assms(4) by (intro declarations_covered [of g "ClassNode d" cm g1 cm]) simp_all
    moreover from add_methods_result(2) [OF am] sortActions_loop_result(2) [OF rest]
    have "set (items g1) \<subseteq> set (items g')" by blast
    ultimately show ?thesis by (rule covers_mono [rotated])
  qed
qed

lemma sortActions_loop_covers_method:
  assumes "sortActions_loop ic st g cs = (Inr g', st')" and "c \<in> set cs"
    and "methodsMetadata st c = Some ms" and "(n, r) \<in> set ms"
    and "r < length (methodObjects st)"
    and "group m = group (methodObjects st ! r)"
    and "fulfills m = fulfills (methodObjects st ! r)"
    and "set (dependsOn m) \<subseteq> set (dependsOn (methodObjects st ! r))
           \<union> set_option (if ic then map_option group (classMetadata st c) else None)"
    and "x \<in> set (declarations m)"
  shows "covers g' x"
  using assms(1-8)
proof (induction cs arbitrary: st g)
  case Nil
  then show ?case by simp
next
  case (Cons c0 cs)
  from Cons.prems(1) obtain d st1 g1 g2 st2 where i: "inspectAction st c0 = (d, st1)"
    and g1: "set (items g) \<subseteq> set (items g1)"
    and cl: "ic \<longrightarrow> (\<exists>cm. classMetadata st c0 = Some cm \<and> addActionToGraph g (ClassNode d) cm = Inr g1)"
    and am: "add_methods (if ic then map_option group (classMetadata st c0) else None) st1 g1
           (case methodsMetadata st c0 of None \<Rightarrow> [] | Some mm \<Rightarrow> mm) = (Inr g2, st2)"
    and rest: "sortActions_loop ic st2 g2 cs = (Inr g', st')"
    by (rule sortActions_loop_round)
  have e1: "store_extends st st1" by (rule inspectAction_result(3) [OF i])
  have e2: "store_extends st1 st2" by (rule add_methods_result(1) [OF am])
  from e1 e2 have e: "store_extends st st2" by (rule store_extends_trans)
  show ?case
  proof (cases "c \<in> set cs")
    case True
    note n = store_extends_nth [OF e Cons.prems(5)]
    from e Cons.prems(3) have 3: "methodsMetadata st2 c = Some ms"
      by (simp add: store_extends_def)
    from e have cm: "classMetadata st2 c = classMetadata st c"
      by (simp add: store_extends_def)
    from n(4) Cons.prems(6) have 6: "group m = group (methodObjects st2 ! r)" by simp
    from n(1) Cons.prems(7) have 7: "fulfills m = fulfills (methodObjects st2 ! r)" by simp
    from n(2) Cons.prems(8)
    have 8: "set (dependsOn m) \<subseteq> set (dependsOn (methodObjects st2 ! r))
           \<union> set_option (if ic then map_option group (classMetadata st2 c) else None)"
      unfolding cm by blast
    from rest True 3 Cons.prems(4) n(3) 6 7 8 show ?thesis by (rule Cons.IH)
  next
    case False
    with Cons.prems(2) have c0: "c0 = c" by simp
    note n = store_extends_nth [OF e1 Cons.prems(5)]
    from Cons.prems(3) have "(case methodsMetadata st c of None \<Rightarrow> [] | Some mm \<Rightarrow> mm) = ms"
      by simp
    with am [unfolded c0]
    have am': "add_methods (if ic then map_option group (classMetadata st c) else None)
        st1 g1 ms = (Inr g2, st2)"
      by (simp only:)
    from n(4) Cons.prems(6) have 6: "group m = group (methodObjects st1 ! r)" by simp
    from n(1) Cons.prems(7) have 7: "fulfills m = fulfills (methodObjects st1 ! r)" by simp
    from n(2) Cons.prems(8)
    have 8: "set (dependsOn m) \<subseteq> set (dependsOn (methodObjects st1 ! r))
           \<union> set_option (if ic then map_option group (classMetadata st c) else None)"
      by blast
    from am' Cons.prems(4) n(3) 6 7 8 assms(9) have "covers g2 x"
      by (rule add_methods_covers)
    with sortActions_loop_result(2) [OF rest] show ?thesis by (rule covers_mono)
  qed
qed

lemma sortActions_loop_classes:
  assumes "sortActions_loop True st g cs = (Inr g', st')" and "c \<in> set cs"
  shows "\<exists>cm. classMetadata st c = Some cm"
  using assms
proof (induction cs arbitrary: st g)
  case Nil
  then show ?case by simp
next
  case (Cons c0 cs)
  from Cons.prems(1) obtain d st1 g1 g2 st2 where i: "inspectAction st c0 = (d, st1)"
    and g1: "set (items g) \<subseteq> set (items g1)"
    and cl: "True \<longrightarrow> (\<exists>cm. classMetadata st c0 = Some cm \<and> addActionToGraph g (ClassNode d) cm = Inr g1)"
    and am: "add_methods (if True then map_option group (classMetadata st c0) else None) st1 g1
           (case methodsMetadata st c0 of None \<Rightarrow> [] | Some mm \<Rightarrow> mm) = (Inr g2, st2)"
    and rest: "sortActions_loop True st2 g2 cs = (Inr g', st')"
    by (rule sortActions_loop_round)
  have e1: "store_extends st st1" by (rule inspectAction_result(3) [OF i])
  have e2: "store_extends st1 st2" by (rule add_methods_result(1) [OF am])
  from e1 e2 have e: "store_extends st st2" by (rule store_extends_trans)
  show ?case
  proof (cases "c \<in> set cs")
    case True
    with rest have "\<exists>cm. classMetadata st2 c = Some cm" by (rule Cons.IH)
    with e show ?thesis by (simp add: store_extends_def)
  next
    case False
    with Cons.prems(2) have "c0 = c" by simp
    with cl show ?thesis by auto
  qed
qed

lemma in_set_concat_map: "x \<in> set (concat (map F xs)) \<longleftrightarrow> (\<exists>c\<in>set xs. x \<in> set (F c))"
  by auto

lemma sortActions_loop_covers:
  assumes l: "sortActions_loop ic st g cs = (Inr g', st')"
    and x: "x \<in> set (method_declarations ic st cs)"
  shows "covers g' x"
proof -
  from x obtain c where c: "c \<in> set cs"
    and xc: "x \<in> set (if ic then
         (case classMetadata st c of
            None \<Rightarrow> concat (map declarations (method_objects st c))
          | Some cm \<Rightarrow>
              declarations cm @
              concat (map (\<lambda>m. declarations (m\<lparr>dependsOn := dependsOn m @ [group cm]\<rparr>))
                        (method_objects st c)))
       else concat (map declarations (method_objects st c)))"
    unfolding method_declarations_def in_set_concat_map by blast
  have obj: "\<exists>ms n r. methodsMetadata st c = Some ms \<and> (n, r) \<in> set ms
      \<and> r < length (methodObjects st) \<and> mo = methodObjects st ! r"
    if "mo \<in> set (method_objects st c)" for mo
  proof -
    from that obtain n r where nr: "(n, r) \<in> set (case methodsMetadata st c of None \<Rightarrow> [] | Some mm \<Rightarrow> mm)"
      and r: "r < length (methodObjects st)" and mo: "mo = methodObjects st ! r"
      by (auto simp: method_objects_def)
    from nr obtain ms where "methodsMetadata st c = Some ms" "(n, r) \<in> set ms"
      by (cases "methodsMetadata st c") simp_all
    with r mo show ?thesis by blast
  qed
  show ?thesis
  proof (cases ic)
    case False
    with xc obtain mo where mo: "mo \<in> set (method_objects st c)" and xm: "x \<in> set (declarations mo)"
      by auto
    from obj [OF mo] obtain ms n r where ms: "methodsMetadata st c = Some ms" "(n, r) \<in> set ms"
      "r < length (methodObjects st)" and moe: "mo = methodObjects st ! r"
      by blast
    from l c ms show ?thesis
      by (rule sortActions_loop_covers_method [where m = mo and x = x])
        (simp_all add: moe [symmetric] xm)
  next
    case True
    from l have lt: "sortActions_loop True st g cs = (Inr g', st')"
      by (simp only: True)
    from sortActions_loop_classes [OF lt c] obtain cm where cm: "classMetadata st c = Some cm"
      by (rule exE)
    from xc True cm consider "x \<in> set (declarations cm)"
      | mo where "mo \<in> set (method_objects st c)"
          "x \<in> set (declarations (mo\<lparr>dependsOn := dependsOn mo @ [group cm]\<rparr>))"
      by auto
    then show ?thesis
    proof cases
      case 1
      from lt c cm 1 show ?thesis
        by (rule sortActions_loop_covers_class)
    next
      case 2
      from obj [OF 2(1)] obtain ms n r where ms: "methodsMetadata st c = Some ms" "(n, r) \<in> set ms"
        "r < length (methodObjects st)" and moe: "mo = methodObjects st ! r"
        by blast
      from l c ms show ?thesis
        by (rule sortActions_loop_covers_method
            [where m = "mo\<lparr>dependsOn := dependsOn mo @ [group cm]\<rparr>" and x = x])
          (simp_all add: moe [symmetric] 2(2) True cm)
    qed
  qed
qed

text \<open>A cycle among declarations that a sorted graph covers would be a cycle of its items.\<close>

lemma demand_chain_map:
  assumes "\<And>a b. a \<in> set ds \<Longrightarrow> b \<in> set ds \<Longrightarrow> demands a b \<Longrightarrow> precedes (f a) (f b)"
  shows "demand_chain xs \<Longrightarrow> set xs \<subseteq> set ds \<Longrightarrow> chain (map f xs)"
proof (induction xs rule: demand_chain.induct)
  case 1
  then show ?case by simp
next
  case (2 a)
  then show ?case by simp
next
  case (3 a b rest)
  from "3.prems" have "demands a b" "a \<in> set ds" "b \<in> set ds" by simp_all
  then have "precedes (f a) (f b)" by (intro assms)
  moreover from "3.IH" "3.prems" have "chain (map f (b # rest))" by simp
  ultimately show ?case by simp
qed

lemma covered_cycle_absurd:
  assumes o: "ordered (items g)" and cv: "\<forall>d\<in>set ds. covers g d" and cy: "declared_cycle ds c"
  shows False
proof -
  from cv have "\<forall>d\<in>set ds. \<exists>i. i \<in> set (items g) \<and> item_group i = d_group d
        \<and> set (d_before d) \<subseteq> set (before i) \<and> set (d_after d) \<subseteq> set (after i)"
    unfolding covers_iff by blast
  then obtain f where f: "\<forall>d\<in>set ds. f d \<in> set (items g) \<and> item_group (f d) = d_group d
        \<and> set (d_before d) \<subseteq> set (before (f d)) \<and> set (d_after d) \<subseteq> set (after (f d))"
    by (rule bchoice [THEN exE])
  have p: "precedes (f a) (f b)" if "a \<in> set ds" "b \<in> set ds" "demands a b" for a b
  proof -
    from f that(1) have fa: "item_group (f a) = d_group a" "set (d_before a) \<subseteq> set (before (f a))"
      by blast+
    from f that(2) have fb: "item_group (f b) = d_group b" "set (d_after b) \<subseteq> set (after (f b))"
      by blast+
    from that(3) fa fb show ?thesis
      unfolding demands_def precedes_def by auto
  qed
  from cy have ne: "c \<noteq> []" and sub: "set c \<subseteq> set ds" and dc: "demand_chain (c @ [hd c])"
    by (auto simp: declared_cycle_def list_all_iff)
  from ne sub have "set (c @ [hd c]) \<subseteq> set ds" by auto
  with p dc have "chain (map f (c @ [hd c]))" by (rule demand_chain_map)
  with ne have ch: "chain (map f c @ [hd (map f c)])" by (simp add: hd_map)
  from sub f have "list_all (\<lambda>a. a \<in> set (items g)) (map f c)"
    by (auto simp: list_all_iff)
  with ne ch have "constraint_cycle (items g) (map f c)"
    by (simp add: constraint_cycle_def)
  with ordered_no_cycle [OF o] show False by blast
qed

lemma sortActionClasses_declared_cycle:
  assumes "declared_cycle (class_declarations st cs) c"
  shows "\<exists>e. sortActionClasses st cs removeKeys = Inl e"
proof (cases "add_classes st new_Topo cs")
  case (Inl e)
  then show ?thesis by (simp add: sortActionClasses_def)
next
  case (Inr g)
  from sorted_graph_new_Topo Inr have "sorted_graph g" by (rule add_classes_sorted)
  then have "ordered (items g)" by (simp add: sorted_graph_def)
  moreover from Inr have "\<forall>d\<in>set (class_declarations st cs). covers g d"
    by (blast intro: add_classes_covers)
  ultimately have False using assms by (rule covered_cycle_absurd)
  then show ?thesis ..
qed

lemma sortActions_declared_cycle:
  assumes "declared_cycle (method_declarations ic st cs) c"
  shows "\<exists>e. fst (sortActions st cs ic removeKeys) = Inl e"
proof (cases "sortActions_loop ic st new_Topo cs")
  case (Pair res st')
  show ?thesis
  proof (cases res)
    case (Inl e)
    with Pair show ?thesis by (simp add: sortActions_def)
  next
    case (Inr g)
    with Pair have l: "sortActions_loop ic st new_Topo cs = (Inr g, st')" by simp
    from sorted_graph_new_Topo l have "sorted_graph g" by (rule sortActions_loop_sorted)
    then have "ordered (items g)" by (simp add: sorted_graph_def)
    moreover from l have "\<forall>d\<in>set (method_declarations ic st cs). covers g d"
      by (blast intro: sortActions_loop_covers)
    ultimately have False using assms by (rule covered_cycle_absurd)
    then show ?thesis ..
  qed
qed

lemma sortActionClasses_covers:
  assumes "sortActionClasses st cs removeKeys = Inr ag" and "d \<in> set (class_declarations st cs)"
  shows "covers (graph ag) d"
proof -
  from assms(1) obtain g where g: "add_classes st new_Topo cs = Inr g" and ag: "ag = finish g removeKeys"
    by (auto simp: sortActionClasses_def split: sum.splits)
  from ag have gg: "graph ag = g"
    by (simp add: finish_def new_ActionGraph_def)
  from g assms(2) show ?thesis
    unfolding gg by (rule add_classes_covers)
qed

lemma sortActions_covers:
  assumes "fst (sortActions st cs ic removeKeys) = Inr ag"
    and "d \<in> set (method_declarations ic st cs)"
  shows "covers (graph ag) d"
proof -
  from assms(1) obtain g st' where g: "sortActions_loop ic st new_Topo cs = (Inr g, st')"
    and ag: "ag = finish g removeKeys"
    by (auto simp: sortActions_def split: sum.splits prod.splits)
  from ag have gg: "graph ag = g"
    by (simp add: finish_def new_ActionGraph_def)
  from g assms(2) show ?thesis
    unfolding gg by (rule sortActions_loop_covers)
qed

section \<open>Claims about the sorted order\<close>

text \<open>
  Claim C1, as amended. For every order produced by \<open>sortActionClasses\<close> or
  \<open>sortActions\<close>: the graph has an item for every action that the classes of the list
  declare, with the group of the action and naming every group that the action declares
  to precede or to follow, and an item of group \<open>k\<close> for every key \<open>k\<close> that such an
  action names; the nodes of the graph are the nodes of its items in their order, and
  the returned \<open>actions\<close> are these nodes, without the key nodes when \<open>removeKeys\<close> is
  set. In the order of the graph's items, key nodes included, and likewise in the
  returned order: for every item \<open>A\<close> that names a group \<open>G\<close> in its \<open>before\<close> list, every
  item whose group is \<open>G\<close> stands after \<open>A\<close>; for every item that names \<open>G\<close> in its
  \<open>after\<close> list, every item whose group is \<open>G\<close> stands before it. Ties are resolved
  greedily in the order of the graph's items: the item at position \<open>i\<close> is one that no
  item from position \<open>i\<close> on must precede, and it has the least insertion sequence number
  among the items from position \<open>i\<close> on that no item from position \<open>i\<close> on must precede;
  the sequence numbers of the items are distinct, so that it is the one of them that was
  inserted first.
\<close>

theorem sorted_order_respects_constraints:
  assumes "sortActionClasses st cs removeKeys = Inr ag
           \<or> fst (sortActions st cs includeClasses removeKeys) = Inr ag"
  shows "(let its = items (graph ag);
              out = (if removeKeys then filter (\<lambda>i. is_object (node i)) its else its)
          in (sortActionClasses st cs removeKeys = Inr ag
                \<longrightarrow> (\<forall>d\<in>set (class_declarations st cs). covers (graph ag) d))
             \<and> (fst (sortActions st cs includeClasses removeKeys) = Inr ag
                \<longrightarrow> (\<forall>d\<in>set (method_declarations includeClasses st cs). covers (graph ag) d))
             \<and> nodes (graph ag) = map node its
             \<and> actions ag = map node out
             \<and> (\<forall>i j. i < length its \<and> j < length its
                    \<and> item_group (its ! j) \<in> set (before (its ! i)) \<longrightarrow> i < j)
             \<and> (\<forall>i j. i < length its \<and> j < length its
                    \<and> item_group (its ! j) \<in> set (after (its ! i)) \<longrightarrow> j < i)
             \<and> (\<forall>i j. i < length out \<and> j < length out
                    \<and> item_group (out ! j) \<in> set (before (out ! i)) \<longrightarrow> i < j)
             \<and> (\<forall>i j. i < length out \<and> j < length out
                    \<and> item_group (out ! j) \<in> set (after (out ! i)) \<longrightarrow> j < i)
             \<and> (\<forall>i. i < length its \<longrightarrow> ready (drop i its) (its ! i))
             \<and> (\<forall>i j. i \<le> j \<and> j < length its \<and> ready (drop i its) (its ! j)
                    \<longrightarrow> seq (its ! i) \<le> seq (its ! j))
             \<and> distinct (map seq its))"
proof -
  from assms have s: "sorted_graph (graph ag)"
  proof
    assume "sortActionClasses st cs removeKeys = Inr ag"
    then show ?thesis by (rule sortActionClasses_Inr(1))
  next
    assume "fst (sortActions st cs includeClasses removeKeys) = Inr ag"
    then show ?thesis by (rule sortActions_Inr(1))
  qed
  from assms have f: "actions ag = actions (finish (graph ag) removeKeys)"
  proof
    assume "sortActionClasses st cs removeKeys = Inr ag"
    then show ?thesis by (rule sortActionClasses_Inr(2))
  next
    assume "fst (sortActions st cs includeClasses removeKeys) = Inr ag"
    then show ?thesis by (rule sortActions_Inr(2))
  qed
  from assms have "numbered (graph ag)"
  proof
    assume "sortActionClasses st cs removeKeys = Inr ag"
    then show ?thesis by (rule sortActionClasses_numbered)
  next
    assume "fst (sortActions st cs includeClasses removeKeys) = Inr ag"
    then show ?thesis by (rule sortActions_numbered)
  qed
  then have d: "distinct (map seq (items (graph ag)))"
    by (rule numbered_distinct)
  note o = sorted_graph_output [OF s, of removeKeys, unfolded Let_def, folded f]
  note i = sorted_graph_items [OF s]
  from o have o1: "actions ag =
      map node (if removeKeys then filter (\<lambda>i. is_object (node i)) (items (graph ag)) else items (graph ag))"
    by (rule conjunct1)
  from o have o2: "\<forall>i j. i < length (if removeKeys then filter (\<lambda>i. is_object (node i)) (items (graph ag)) else items (graph ag))
      \<and> j < length (if removeKeys then filter (\<lambda>i. is_object (node i)) (items (graph ag)) else items (graph ag))
      \<and> item_group ((if removeKeys then filter (\<lambda>i. is_object (node i)) (items (graph ag)) else items (graph ag)) ! j)
          \<in> set (before ((if removeKeys then filter (\<lambda>i. is_object (node i)) (items (graph ag)) else items (graph ag)) ! i))
      \<longrightarrow> i < j"
    by (rule conjunct2 [THEN conjunct1])
  from o have o3: "\<forall>i j. i < length (if removeKeys then filter (\<lambda>i. is_object (node i)) (items (graph ag)) else items (graph ag))
      \<and> j < length (if removeKeys then filter (\<lambda>i. is_object (node i)) (items (graph ag)) else items (graph ag))
      \<and> item_group ((if removeKeys then filter (\<lambda>i. is_object (node i)) (items (graph ag)) else items (graph ag)) ! j)
          \<in> set (after ((if removeKeys then filter (\<lambda>i. is_object (node i)) (items (graph ag)) else items (graph ag)) ! i))
      \<longrightarrow> j < i"
    by (rule conjunct2 [THEN conjunct2, THEN conjunct1])
  from o have o4: "\<forall>i j. i \<le> j \<and> j < length (items (graph ag))
      \<and> ready (drop i (items (graph ag))) (items (graph ag) ! j)
      \<longrightarrow> seq (items (graph ag) ! i) \<le> seq (items (graph ag) ! j)"
    by (rule conjunct2 [THEN conjunct2, THEN conjunct2])
  from i have i1: "nodes (graph ag) = map node (items (graph ag))"
    by (rule conjunct1)
  from i have i2: "\<forall>i j. i < length (items (graph ag)) \<and> j < length (items (graph ag))
      \<and> item_group (items (graph ag) ! j) \<in> set (before (items (graph ag) ! i)) \<longrightarrow> i < j"
    by (rule conjunct2 [THEN conjunct1])
  from i have i3: "\<forall>i j. i < length (items (graph ag)) \<and> j < length (items (graph ag))
      \<and> item_group (items (graph ag) ! j) \<in> set (after (items (graph ag) ! i)) \<longrightarrow> j < i"
    by (rule conjunct2 [THEN conjunct2, THEN conjunct1])
  from i have i4: "\<forall>i. i < length (items (graph ag))
      \<longrightarrow> ready (drop i (items (graph ag))) (items (graph ag) ! i)"
    by (rule conjunct2 [THEN conjunct2, THEN conjunct2])
  have c1: "sortActionClasses st cs removeKeys = Inr ag
      \<longrightarrow> (\<forall>d\<in>set (class_declarations st cs). covers (graph ag) d)"
    by (blast intro: sortActionClasses_covers)
  have c2: "fst (sortActions st cs includeClasses removeKeys) = Inr ag
      \<longrightarrow> (\<forall>d\<in>set (method_declarations includeClasses st cs). covers (graph ag) d)"
    by (blast intro: sortActions_covers)
  show ?thesis
    unfolding Let_def
    by (intro conjI)
      (rule c1, rule c2, rule i1, rule o1, rule i2, rule i3, rule o2, rule o3, rule i4, rule o4,
        rule d)
qed

lemma tie_store_sorted:
  "sortActionClasses tie_store [''P1'', ''P2'', ''P3''] False =
     Inr \<lparr>graph = \<lparr>items =
             [\<lparr>seq = 2, before = [], after = [], item_group = ''P2'', node = ClassMetadataNode ''P2''\<rparr>,
              \<lparr>seq = 3, before = [''k''], after = [], item_group = ''P3'', node = ClassMetadataNode ''P3''\<rparr>,
              \<lparr>seq = 0, before = [], after = [], item_group = ''k'', node = KeyNode ''k''\<rparr>,
              \<lparr>seq = 1, before = [], after = [''k''], item_group = ''P1'', node = ClassMetadataNode ''P1''\<rparr>],
           nodes = [ClassMetadataNode ''P2'', ClassMetadataNode ''P3'', KeyNode ''k'', ClassMetadataNode ''P1'']\<rparr>,
         actions = [ClassMetadataNode ''P2'', ClassMetadataNode ''P3'', KeyNode ''k'', ClassMetadataNode ''P1'']\<rparr>"
  by (simp add: sortActionClasses_def tie_store_def addActionToGraph_def add_def exists_group_def
      kahn.simps new_Topo_def ready_def precedes_def finish_def new_ActionGraph_def Let_def)

lemma tie_store_sorted_objects:
  "sortActionClasses tie_store [''P1'', ''P2'', ''P3''] True =
     Inr \<lparr>graph = \<lparr>items =
             [\<lparr>seq = 2, before = [], after = [], item_group = ''P2'', node = ClassMetadataNode ''P2''\<rparr>,
              \<lparr>seq = 3, before = [''k''], after = [], item_group = ''P3'', node = ClassMetadataNode ''P3''\<rparr>,
              \<lparr>seq = 0, before = [], after = [], item_group = ''k'', node = KeyNode ''k''\<rparr>,
              \<lparr>seq = 1, before = [], after = [''k''], item_group = ''P1'', node = ClassMetadataNode ''P1''\<rparr>],
           nodes = [ClassMetadataNode ''P2'', ClassMetadataNode ''P3'', KeyNode ''k'', ClassMetadataNode ''P1'']\<rparr>,
         actions = [ClassMetadataNode ''P2'', ClassMetadataNode ''P3'', ClassMetadataNode ''P1'']\<rparr>"
  by (simp add: sortActionClasses_def tie_store_def addActionToGraph_def add_def exists_group_def
      kahn.simps new_Topo_def ready_def precedes_def finish_def new_ActionGraph_def Let_def)

theorem sorted_order_witness:
  "actions (projr (sortActionClasses tie_store [''P1'', ''P2'', ''P3''] False))
     = [ClassMetadataNode ''P2'', ClassMetadataNode ''P3'', KeyNode ''k'', ClassMetadataNode ''P1'']
   \<and> actions (projr (sortActionClasses tie_store [''P1'', ''P2'', ''P3''] False))
     = map node (items (graph (projr (sortActionClasses tie_store [''P1'', ''P2'', ''P3''] False))))
   \<and> actions (projr (sortActionClasses tie_store [''P1'', ''P2'', ''P3''] True))
     = [ClassMetadataNode ''P2'', ClassMetadataNode ''P3'', ClassMetadataNode ''P1'']
   \<and> actions (projr (sortActionClasses tie_store [''P1'', ''P2'', ''P3''] True))
     = map node (filter (\<lambda>i. is_object (node i))
         (items (graph (projr (sortActionClasses tie_store [''P1'', ''P2'', ''P3''] True)))))
   \<and> map seq (items (graph (projr (sortActionClasses tie_store [''P1'', ''P2'', ''P3''] True))))
     = [2, 3, 0, 1]
   \<and> distinct (map seq (items (graph (projr (sortActionClasses tie_store [''P1'', ''P2'', ''P3''] True)))))
   \<and> covers (graph (projr (sortActionClasses tie_store [''P1'', ''P2'', ''P3''] True)))
        \<lparr>d_group = ''P1'', d_before = [], d_after = [''k'']\<rparr>
   \<and> covers (graph (projr (sortActionClasses tie_store [''P1'', ''P2'', ''P3''] True)))
        \<lparr>d_group = ''k'', d_before = [], d_after = []\<rparr>"
proof -
  let ?ag = "projr (sortActionClasses tie_store [''P1'', ''P2'', ''P3''] False)"
  let ?ao = "projr (sortActionClasses tie_store [''P1'', ''P2'', ''P3''] True)"
  have r: "sortActionClasses tie_store [''P1'', ''P2'', ''P3''] False = Inr ?ag"
    by (simp add: tie_store_sorted)
  have ro: "sortActionClasses tie_store [''P1'', ''P2'', ''P3''] True = Inr ?ao"
    by (simp add: tie_store_sorted_objects)
  note t = sorted_order_respects_constraints [where st = tie_store
      and cs = "[''P1'', ''P2'', ''P3'']" and removeKeys = False and ag = ?ag
      and includeClasses = False, OF disjI1, OF r, unfolded Let_def]
  note u = sorted_order_respects_constraints [where st = tie_store
      and cs = "[''P1'', ''P2'', ''P3'']" and removeKeys = True and ag = ?ao
      and includeClasses = False, OF disjI1, OF ro, unfolded Let_def]
  from t have 1: "actions ?ag = map node (items (graph ?ag))"
    by simp
  from u have 2: "actions ?ao = map node (filter (\<lambda>i. is_object (node i)) (items (graph ?ao)))"
    by simp
  from u have 3: "distinct (map seq (items (graph ?ao)))"
    by simp
  have cv: "\<forall>d\<in>set (class_declarations tie_store [''P1'', ''P2'', ''P3'']). covers (graph ?ao) d"
    by (rule u [THEN conjunct1, THEN mp, OF ro])
  have m: "\<lparr>d_group = ''P1'', d_before = [], d_after = [''k'']\<rparr>
        \<in> set (class_declarations tie_store [''P1'', ''P2'', ''P3''])"
    "\<lparr>d_group = ''k'', d_before = [], d_after = []\<rparr>
        \<in> set (class_declarations tie_store [''P1'', ''P2'', ''P3''])"
    by (simp_all add: class_declarations_def declarations_def declared_action_def declared_key_def
        tie_store_def)
  from cv m have 7: "covers (graph ?ao) \<lparr>d_group = ''P1'', d_before = [], d_after = [''k'']\<rparr>"
    "covers (graph ?ao) \<lparr>d_group = ''k'', d_before = [], d_after = []\<rparr>"
    by blast+
  have 4: "actions ?ag
      = [ClassMetadataNode ''P2'', ClassMetadataNode ''P3'', KeyNode ''k'', ClassMetadataNode ''P1'']"
    by (simp add: tie_store_sorted)
  have 5: "actions ?ao = [ClassMetadataNode ''P2'', ClassMetadataNode ''P3'', ClassMetadataNode ''P1'']"
    by (simp add: tie_store_sorted_objects)
  have 6: "map seq (items (graph ?ao)) = [2, 3, 0, 1]"
    by (simp add: tie_store_sorted_objects)
  from 1 2 3 4 5 6 7 show ?thesis by blast
qed

text \<open>
  The third clause of claim C1 as stated fails. \<open>P1\<close> depends on \<open>k\<close>, \<open>P2\<close> declares
  nothing and \<open>P3\<close> fulfills \<open>k\<close>: the key node \<open>k\<close> is inserted first (sequence number
  0) and \<open>P2\<close> third (sequence number 2). No constraint relates \<open>P2\<close> to any node, yet the
  order is \<open>P2, P3, k, P1\<close>, with \<open>P2\<close> before \<open>k\<close>.
\<close>

theorem stable_tie_break_counterexample:
  "map seq (items (graph (projr (sortActionClasses tie_store [''P1'', ''P2'', ''P3''] False)))) = [2, 3, 0, 1]
   \<and> map node (items (graph (projr (sortActionClasses tie_store [''P1'', ''P2'', ''P3''] False))))
       = [ClassMetadataNode ''P2'', ClassMetadataNode ''P3'', KeyNode ''k'', ClassMetadataNode ''P1'']
   \<and> unconstrained (items (graph (projr (sortActionClasses tie_store [''P1'', ''P2'', ''P3''] False))))
        (items (graph (projr (sortActionClasses tie_store [''P1'', ''P2'', ''P3''] False))) ! 0)
   \<and> \<not> insertion_ordered_ties (items (graph (projr (sortActionClasses tie_store [''P1'', ''P2'', ''P3''] False))))"
proof -
  let ?its = "items (graph (projr (sortActionClasses tie_store [''P1'', ''P2'', ''P3''] False)))"
  have a: "map seq ?its = [2, 3, 0, 1]"
    by (simp add: tie_store_sorted)
  have b: "map node ?its = [ClassMetadataNode ''P2'', ClassMetadataNode ''P3'', KeyNode ''k'', ClassMetadataNode ''P1'']"
    by (simp add: tie_store_sorted)
  have c: "unconstrained ?its (?its ! 0)"
    by (simp add: tie_store_sorted unconstrained_def precedes_def)
  have d: "\<not> insertion_ordered_ties ?its"
  proof
    assume "insertion_ordered_ties ?its"
    then have "(0::nat) < 2 \<and> 2 < length ?its
        \<and> \<not> precedes (?its ! 0) (?its ! 2) \<and> \<not> precedes (?its ! 2) (?its ! 0)
        \<longrightarrow> seq (?its ! 0) < seq (?its ! 2)"
      unfolding insertion_ordered_ties_def by blast
    then show False
      by (simp add: tie_store_sorted precedes_def)
  qed
  from a b c d show ?thesis by blast
qed

section \<open>Claims about the Graph Builder\<close>

lemma add_keys_Inl: "add_keys g ks = Inl e \<Longrightarrow> e = DependenciesError"
proof (induction ks arbitrary: g)
  case Nil
  then show ?case by simp
next
  case (Cons k ks)
  then show ?case
    by (auto split: if_splits sum.splits dest: add_Inl)
qed

lemma addActionToGraph_Inl: "addActionToGraph g n meta = Inl e \<Longrightarrow> e = DependenciesError"
  by (auto simp: addActionToGraph_def split: sum.splits dest: add_Inl add_keys_Inl)

text \<open>
  Claim C5. When \<open>addActionToGraph\<close> returns, the graph holds its former items and, in
  addition, one key node for every key of \<open>fulfills\<close> and then of \<open>dependsOn\<close> that was
  not the group of an item of the graph, each such key once, in the order of first
  reference and numbered from the next sequence number on, and last the node of the action
  with \<open>before = fulfills\<close>, \<open>after = dependsOn\<close> and the action's group; the graph is
  sorted. Whether a key is already there is decided by comparing the key with the groups
  of the items. The only way not to return is the error of a contradictory insertion.
\<close>

theorem addActionToGraph_inserts:
  "(addActionToGraph g n meta = Inr g' \<longrightarrow>
      mset (items g') =
        mset (items g)
        + mset (key_items (length (items g)) (new_keys g (fulfills meta @ dependsOn meta)))
        + {#action_item (length (items g) + length (new_keys g (fulfills meta @ dependsOn meta))) n meta#}
      \<and> nodes g' = map node (items g')
      \<and> ordered (items g'))
   \<and> (addActionToGraph g n meta = Inl e \<longrightarrow> e = DependenciesError)"
proof (intro conjI impI)
  assume a: "addActionToGraph g n meta = Inr g'"
  then show "mset (items g') =
        mset (items g)
        + mset (key_items (length (items g)) (new_keys g (fulfills meta @ dependsOn meta)))
        + {#action_item (length (items g) + length (new_keys g (fulfills meta @ dependsOn meta))) n meta#}"
    by (rule addActionToGraph_items)
  from addActionToGraph_sorted [OF a] show "nodes g' = map node (items g')" and "ordered (items g')"
    by (simp_all add: sorted_graph_def)
next
  assume "addActionToGraph g n meta = Inl e"
  then show "e = DependenciesError" by (rule addActionToGraph_Inl)
qed

lemma addActionToGraph_example:
  "addActionToGraph
     \<lparr>items = [\<lparr>seq = 0, before = [], after = [], item_group = ''x'', node = ClassMetadataNode ''X''\<rparr>],
      nodes = [ClassMetadataNode ''X'']\<rparr>
     (ClassMetadataNode ''A'')
     \<lparr>group = ''A'', fulfills = [''x'', ''z''], dependsOn = [''y''], target = ClassTarget ''A''\<rparr>
   = Inr \<lparr>items =
            [\<lparr>seq = 2, before = [], after = [], item_group = ''y'', node = KeyNode ''y''\<rparr>,
             \<lparr>seq = 3, before = [''x'', ''z''], after = [''y''], item_group = ''A'',
               node = ClassMetadataNode ''A''\<rparr>,
             \<lparr>seq = 0, before = [], after = [], item_group = ''x'', node = ClassMetadataNode ''X''\<rparr>,
             \<lparr>seq = 1, before = [], after = [], item_group = ''z'', node = KeyNode ''z''\<rparr>],
          nodes = [KeyNode ''y'', ClassMetadataNode ''A'', ClassMetadataNode ''X'', KeyNode ''z'']\<rparr>"
  by (simp add: addActionToGraph_def add_def exists_group_def kahn.simps ready_def precedes_def Let_def)

theorem addActionToGraph_inserts_witness:
  "size (mset (items (projr (addActionToGraph
     \<lparr>items = [\<lparr>seq = 0, before = [], after = [], item_group = ''x'', node = ClassMetadataNode ''X''\<rparr>],
      nodes = [ClassMetadataNode ''X'']\<rparr>
     (ClassMetadataNode ''A'')
     \<lparr>group = ''A'', fulfills = [''x'', ''z''], dependsOn = [''y''], target = ClassTarget ''A''\<rparr>)))) = 4
   \<and> new_keys
     \<lparr>items = [\<lparr>seq = 0, before = [], after = [], item_group = ''x'', node = ClassMetadataNode ''X''\<rparr>],
      nodes = [ClassMetadataNode ''X'']\<rparr> [''x'', ''z'', ''y''] = [''z'', ''y'']"
proof -
  let ?g = "\<lparr>items = [\<lparr>seq = 0, before = [], after = [], item_group = ''x'', node = ClassMetadataNode ''X''\<rparr>],
      nodes = [ClassMetadataNode ''X'']\<rparr>"
  let ?meta = "\<lparr>group = ''A'', fulfills = [''x'', ''z''], dependsOn = [''y''], target = ClassTarget ''A''\<rparr>"
  let ?g' = "projr (addActionToGraph ?g (ClassMetadataNode ''A'') ?meta)"
  have r: "addActionToGraph ?g (ClassMetadataNode ''A'') ?meta = Inr ?g'"
    by (simp add: addActionToGraph_example)
  have k: "new_keys ?g [''x'', ''z'', ''y''] = [''z'', ''y'']"
    by (simp add: new_keys_def dedup_first_seen_def)
  from addActionToGraph_inserts [of ?g "ClassMetadataNode ''A''" ?meta ?g'] r
  have "mset (items ?g') =
        mset (items ?g)
        + mset (key_items (length (items ?g)) (new_keys ?g (fulfills ?meta @ dependsOn ?meta)))
        + {#action_item (length (items ?g) + length (new_keys ?g (fulfills ?meta @ dependsOn ?meta))) (ClassMetadataNode ''A'') ?meta#}"
    by blast
  then have "size (mset (items ?g')) = 4"
    by (simp add: k)
  with k show ?thesis by blast
qed

section \<open>Claims about contradictory constraints\<close>

lemma sortActionClasses_cycle:
  assumes "a \<in> set cs" and "b \<in> set cs"
    and "classMetadata st a = Some ma" and "classMetadata st b = Some mb"
    and "x \<in> set (fulfills ma)" and "y \<in> set (dependsOn ma)"
    and "y \<in> set (fulfills mb)" and "x \<in> set (dependsOn mb)"
  shows "\<exists>e. sortActionClasses st cs removeKeys = Inl e"
proof (cases "add_classes st new_Topo cs")
  case (Inl e)
  then show ?thesis by (simp add: sortActionClasses_def)
next
  case (Inr g)
  from sorted_graph_new_Topo Inr have s: "sorted_graph g" by (rule add_classes_sorted)
  from add_classes_has(2) [OF Inr assms(1,3)] assms(5,6) have 1: "has_edges g x y" by blast
  from add_classes_has(2) [OF Inr assms(2,4)] assms(7,8) have 2: "has_edges g y x" by blast
  from add_classes_has(1) [OF Inr assms(1,3)] assms(5,6) have 3: "has_group g x" "has_group g y"
    by blast+
  from s 1 2 3 have False by (rule sorted_graph_no_cycle)
  then show ?thesis ..
qed

lemma sortActions_cycle:
  assumes "a \<in> set cs" and "b \<in> set cs"
    and "methodsMetadata st a = Some msa" and "(na, ra) \<in> set msa" and "ra < length (methodObjects st)"
    and "methodsMetadata st b = Some msb" and "(nb, rb) \<in> set msb" and "rb < length (methodObjects st)"
    and "x \<in> set (fulfills (methodObjects st ! ra))" and "y \<in> set (dependsOn (methodObjects st ! ra))"
    and "y \<in> set (fulfills (methodObjects st ! rb))" and "x \<in> set (dependsOn (methodObjects st ! rb))"
  shows "\<exists>e. fst (sortActions st cs includeClasses removeKeys) = Inl e"
proof (cases "sortActions_loop includeClasses st new_Topo cs")
  case (Pair res st')
  show ?thesis
  proof (cases res)
    case (Inl e)
    with Pair show ?thesis by (simp add: sortActions_def)
  next
    case (Inr g)
    with Pair have l: "sortActions_loop includeClasses st new_Topo cs = (Inr g, st')" by simp
    from sorted_graph_new_Topo l have s: "sorted_graph g" by (rule sortActions_loop_sorted)
    from sortActions_loop_has [OF l assms(1,3,4,5,9,10)]
    have 1: "has_group g x" "has_group g y" "has_edges g x y" by blast+
    from sortActions_loop_has [OF l assms(2,6,7,8,11,12)]
    have 2: "has_edges g y x" by blast
    from s 1(3) 2 1(1,2) have False by (rule sorted_graph_no_cycle)
    then show ?thesis ..
  qed
qed

lemma pair_cycle:
  assumes "declared_action ma \<in> set ds" and "declared_action mb \<in> set ds"
    and "declared_key x \<in> set ds" and "declared_key y \<in> set ds"
    and "x \<in> set (fulfills ma)" and "y \<in> set (dependsOn ma)"
    and "y \<in> set (fulfills mb)" and "x \<in> set (dependsOn mb)"
  shows "declared_cycle ds [declared_action ma, declared_key x, declared_action mb, declared_key y]"
  using assms by (simp add: declared_cycle_def demands_def declared_action_def declared_key_def)

lemma sortActions_class_cycle:
  assumes "a \<in> set cs" and "b \<in> set cs"
    and "classMetadata st a = Some ma" and "classMetadata st b = Some mb"
    and "x \<in> set (fulfills ma)" and "y \<in> set (dependsOn ma)"
    and "y \<in> set (fulfills mb)" and "x \<in> set (dependsOn mb)"
  shows "\<exists>e. fst (sortActions st cs True removeKeys) = Inl e"
proof -
  let ?ds = "method_declarations True st cs"
  have m: "set (declarations m) \<subseteq> set ?ds" if "c \<in> set cs" "classMetadata st c = Some m" for c m
  proof
    fix d
    assume "d \<in> set (declarations m)"
    with that show "d \<in> set ?ds"
      unfolding method_declarations_def in_set_concat_map by (intro bexI [of _ c]) simp_all
  qed
  from assms(5,6) have "declared_action ma \<in> set (declarations ma)"
    "declared_key x \<in> set (declarations ma)" "declared_key y \<in> set (declarations ma)"
    by (simp_all add: declarations_def)
  with m [OF assms(1,3)] have 1: "declared_action ma \<in> set ?ds" "declared_key x \<in> set ?ds"
    "declared_key y \<in> set ?ds"
    by blast+
  have "declared_action mb \<in> set (declarations mb)"
    by (simp add: declarations_def)
  with m [OF assms(2,4)] have 2: "declared_action mb \<in> set ?ds"
    by blast
  from 1(1) 2 1(2,3) assms(5-8)
  have "declared_cycle ?ds [declared_action ma, declared_key x, declared_action mb, declared_key y]"
    by (rule pair_cycle)
  then show ?thesis by (rule sortActions_declared_cycle)
qed

text \<open>
  Claim C2. The constraints that the classes of the list declare are those of their
  class-level metadata for \<open>sortActionClasses\<close> and those of their methods for
  \<open>sortActions\<close>, to which \<open>includeClasses\<close> adds the class-level metadata and, for every
  method, the group of its class as a group to follow; every key that is named stands
  for a node of that group. Whenever these declared constraints contain a cycle, of
  whatever length, through actions and keys, the sort function returns an error and no
  order. In particular, when two classes of the list have class-level metadata such that
  one fulfills \<open>x\<close> and depends on \<open>y\<close> and the other fulfills \<open>y\<close> and depends on \<open>x\<close>,
  \<open>sortActionClasses\<close> fails, and so does \<open>sortActions\<close> with \<open>includeClasses\<close>; and when
  two methods of classes of the list are so related, \<open>sortActions\<close> fails with and without
  \<open>includeClasses\<close>. No graph that is returned has a chain of constraints among its items
  that leads back to its first item.
\<close>

theorem cyclic_constraints_fail:
  "(declared_cycle (class_declarations st cs) c
      \<longrightarrow> (\<exists>e. sortActionClasses st cs removeKeys = Inl e))
   \<and> (declared_cycle (method_declarations includeClasses st cs) c
      \<longrightarrow> (\<exists>e. fst (sortActions st cs includeClasses removeKeys) = Inl e))
   \<and> (a \<in> set cs \<and> b \<in> set cs
      \<and> classMetadata st a = Some ma \<and> classMetadata st b = Some mb
      \<and> x \<in> set (fulfills ma) \<and> y \<in> set (dependsOn ma)
      \<and> y \<in> set (fulfills mb) \<and> x \<in> set (dependsOn mb)
      \<longrightarrow> (\<exists>e. sortActionClasses st cs removeKeys = Inl e)
          \<and> (\<exists>e. fst (sortActions st cs True removeKeys) = Inl e))
   \<and> (a \<in> set cs \<and> b \<in> set cs
      \<and> methodsMetadata st a = Some msa \<and> (na, ra) \<in> set msa \<and> ra < length (methodObjects st)
      \<and> methodsMetadata st b = Some msb \<and> (nb, rb) \<in> set msb \<and> rb < length (methodObjects st)
      \<and> x \<in> set (fulfills (methodObjects st ! ra)) \<and> y \<in> set (dependsOn (methodObjects st ! ra))
      \<and> y \<in> set (fulfills (methodObjects st ! rb)) \<and> x \<in> set (dependsOn (methodObjects st ! rb))
      \<longrightarrow> (\<exists>e. fst (sortActions st cs includeClasses removeKeys) = Inl e))
   \<and> (sortActionClasses st cs removeKeys = Inr ag
        \<or> fst (sortActions st cs includeClasses removeKeys) = Inr ag
      \<longrightarrow> \<not> constraint_cycle (items (graph ag)) its)"
proof (intro conjI impI)
  assume "declared_cycle (class_declarations st cs) c"
  then show "\<exists>e. sortActionClasses st cs removeKeys = Inl e"
    by (rule sortActionClasses_declared_cycle)
next
  assume "declared_cycle (method_declarations includeClasses st cs) c"
  then show "\<exists>e. fst (sortActions st cs includeClasses removeKeys) = Inl e"
    by (rule sortActions_declared_cycle)
next
  assume "a \<in> set cs \<and> b \<in> set cs
      \<and> classMetadata st a = Some ma \<and> classMetadata st b = Some mb
      \<and> x \<in> set (fulfills ma) \<and> y \<in> set (dependsOn ma)
      \<and> y \<in> set (fulfills mb) \<and> x \<in> set (dependsOn mb)"
  then show "\<exists>e. sortActionClasses st cs removeKeys = Inl e"
    by (intro sortActionClasses_cycle [of a cs b st ma mb x y]) simp_all
next
  assume "a \<in> set cs \<and> b \<in> set cs
      \<and> classMetadata st a = Some ma \<and> classMetadata st b = Some mb
      \<and> x \<in> set (fulfills ma) \<and> y \<in> set (dependsOn ma)
      \<and> y \<in> set (fulfills mb) \<and> x \<in> set (dependsOn mb)"
  then show "\<exists>e. fst (sortActions st cs True removeKeys) = Inl e"
    by (intro sortActions_class_cycle [of a cs b st ma mb x y]) simp_all
next
  assume "a \<in> set cs \<and> b \<in> set cs
      \<and> methodsMetadata st a = Some msa \<and> (na, ra) \<in> set msa \<and> ra < length (methodObjects st)
      \<and> methodsMetadata st b = Some msb \<and> (nb, rb) \<in> set msb \<and> rb < length (methodObjects st)
      \<and> x \<in> set (fulfills (methodObjects st ! ra)) \<and> y \<in> set (dependsOn (methodObjects st ! ra))
      \<and> y \<in> set (fulfills (methodObjects st ! rb)) \<and> x \<in> set (dependsOn (methodObjects st ! rb))"
  then show "\<exists>e. fst (sortActions st cs includeClasses removeKeys) = Inl e"
    by (intro sortActions_cycle [of a cs b st msa na ra msb nb rb x y]) simp_all
next
  assume r: "sortActionClasses st cs removeKeys = Inr ag
        \<or> fst (sortActions st cs includeClasses removeKeys) = Inr ag"
  then have "sorted_graph (graph ag)"
  proof
    assume "sortActionClasses st cs removeKeys = Inr ag"
    then show ?thesis by (rule sortActionClasses_Inr(1))
  next
    assume "fst (sortActions st cs includeClasses removeKeys) = Inr ag"
    then show ?thesis by (rule sortActions_Inr(1))
  qed
  then have "ordered (items (graph ag))" by (simp add: sorted_graph_def)
  then show "\<not> constraint_cycle (items (graph ag)) its" by (rule ordered_no_cycle)
qed

lemma cycle3_declared:
  "declared_cycle (class_declarations cycle3_store [''K1'', ''K2'', ''K3'']) cycle3"
  "declared_cycle (method_declarations True cycle3_store [''K1'', ''K2'', ''K3'']) cycle3"
  by (simp_all add: declared_cycle_def class_declarations_def method_declarations_def
      method_objects_def declarations_def declared_action_def declared_key_def demands_def
      cycle3_store_def cycle3_def)

theorem cyclic_constraints_witness:
  "sortActionClasses cycle3_store [''K1'', ''K2'', ''K3''] False = Inl DependenciesError
   \<and> fst (sortActions cycle3_store [''K1'', ''K2'', ''K3''] True False) = Inl DependenciesError
   \<and> sortActionClasses cycle_store [''A'', ''B''] False = Inl DependenciesError
   \<and> fst (sortActions cycle_store [''A'', ''B''] True False) = Inl DependenciesError
   \<and> fst (sortActions cycle_store [''MA'', ''MB''] False False) = Inl DependenciesError
   \<and> \<not> constraint_cycle (items (graph (projr (sortActionClasses tie_store [''P1'', ''P2'', ''P3''] False))))
         [items (graph (projr (sortActionClasses tie_store [''P1'', ''P2'', ''P3''] False))) ! 1,
          items (graph (projr (sortActionClasses tie_store [''P1'', ''P2'', ''P3''] False))) ! 2]"
proof -
  let ?ma = "\<lparr>group = ''A'', fulfills = [''x''], dependsOn = [''y''], target = ClassTarget ''A''\<rparr>"
  let ?mb = "\<lparr>group = ''B'', fulfills = [''y''], dependsOn = [''x''], target = ClassTarget ''B''\<rparr>"
  have h1: "''A'' \<in> set [''A'', ''B''] \<and> ''B'' \<in> set [''A'', ''B'']
      \<and> classMetadata cycle_store ''A'' = Some ?ma \<and> classMetadata cycle_store ''B'' = Some ?mb
      \<and> ''x'' \<in> set (fulfills ?ma) \<and> ''y'' \<in> set (dependsOn ?ma)
      \<and> ''y'' \<in> set (fulfills ?mb) \<and> ''x'' \<in> set (dependsOn ?mb)"
    by (simp add: cycle_store_def)
  have h2: "''MA'' \<in> set [''MA'', ''MB''] \<and> ''MB'' \<in> set [''MA'', ''MB'']
      \<and> methodsMetadata cycle_store ''MA'' = Some [(''a'', 0)] \<and> (''a'', 0) \<in> set [(''a'', 0::nat)]
      \<and> 0 < length (methodObjects cycle_store)
      \<and> methodsMetadata cycle_store ''MB'' = Some [(''b'', 1)] \<and> (''b'', 1) \<in> set [(''b'', 1::nat)]
      \<and> 1 < length (methodObjects cycle_store)
      \<and> ''x'' \<in> set (fulfills (methodObjects cycle_store ! 0))
      \<and> ''y'' \<in> set (dependsOn (methodObjects cycle_store ! 0))
      \<and> ''y'' \<in> set (fulfills (methodObjects cycle_store ! 1))
      \<and> ''x'' \<in> set (dependsOn (methodObjects cycle_store ! 1))"
    by (simp add: cycle_store_def)
  let ?ag = "projr (sortActionClasses tie_store [''P1'', ''P2'', ''P3''] False)"
  have h3: "sortActionClasses tie_store [''P1'', ''P2'', ''P3''] False = Inr ?ag"
    by (simp add: tie_store_sorted)
  have k1: "\<exists>e. sortActionClasses cycle3_store [''K1'', ''K2'', ''K3''] False = Inl e"
    by (rule cyclic_constraints_fail
        [where st = cycle3_store and cs = "[''K1'', ''K2'', ''K3'']" and c = cycle3
          and removeKeys = False, THEN conjunct1, THEN mp, OF cycle3_declared(1)])
  have k2: "\<exists>e. fst (sortActions cycle3_store [''K1'', ''K2'', ''K3''] True False) = Inl e"
    by (rule cyclic_constraints_fail
        [where st = cycle3_store and cs = "[''K1'', ''K2'', ''K3'']" and c = cycle3
          and removeKeys = False and includeClasses = True,
          THEN conjunct2, THEN conjunct1, THEN mp, OF cycle3_declared(2)])
  have c1: "(\<exists>e. sortActionClasses cycle_store [''A'', ''B''] False = Inl e)
      \<and> (\<exists>e. fst (sortActions cycle_store [''A'', ''B''] True False) = Inl e)"
    by (rule cyclic_constraints_fail
        [where st = cycle_store and cs = "[''A'', ''B'']" and removeKeys = False
          and a = "''A''" and b = "''B''" and ma = ?ma and mb = ?mb and x = "''x''" and y = "''y''",
          THEN conjunct2, THEN conjunct2, THEN conjunct1, THEN mp, OF h1])
  have c2: "\<exists>e. fst (sortActions cycle_store [''MA'', ''MB''] False False) = Inl e"
    by (rule cyclic_constraints_fail
        [where st = cycle_store and cs = "[''MA'', ''MB'']" and removeKeys = False
          and includeClasses = False
          and a = "''MA''" and b = "''MB''" and x = "''x''" and y = "''y''"
          and msa = "[(''a'', 0)]" and na = "''a''" and ra = 0
          and msb = "[(''b'', 1)]" and nb = "''b''" and rb = 1,
          THEN conjunct2, THEN conjunct2, THEN conjunct2, THEN conjunct1, THEN mp, OF h2])
  have c3: "\<not> constraint_cycle (items (graph ?ag)) [items (graph ?ag) ! 1, items (graph ?ag) ! 2]"
    by (rule cyclic_constraints_fail
        [where st = tie_store and cs = "[''P1'', ''P2'', ''P3'']" and removeKeys = False
          and ag = ?ag,
          THEN conjunct2, THEN conjunct2, THEN conjunct2, THEN conjunct2, THEN mp,
          OF disjI1, OF h3])
  note ev = sortActionClasses_def sortActions_def inspectAction_def set_actionClass_def
      cycle_store_def cycle3_store_def addActionToGraph_def add_def exists_group_def
      kahn.simps new_Topo_def ready_def precedes_def Let_def
  have d1: "sortActionClasses cycle3_store [''K1'', ''K2'', ''K3''] False = Inl DependenciesError"
    using k1 by (simp add: ev)
  have d2: "fst (sortActions cycle3_store [''K1'', ''K2'', ''K3''] True False) = Inl DependenciesError"
    using k2 by (simp add: ev)
  have d3: "sortActionClasses cycle_store [''A'', ''B''] False = Inl DependenciesError"
    using c1 by (simp add: ev)
  have d4: "fst (sortActions cycle_store [''A'', ''B''] True False) = Inl DependenciesError"
    using c1 by (simp add: ev)
  have d5: "fst (sortActions cycle_store [''MA'', ''MB''] False False) = Inl DependenciesError"
    using c2 by (simp add: ev)
  from d1 d2 d3 d4 d5 c3 show ?thesis by blast
qed

section \<open>Inspection\<close>

lemma methodObjects_set_actionClass:
  "length (methodObjects (set_actionClass d r st)) = length (methodObjects st)"
  "i < length (methodObjects st) \<Longrightarrow>
     methodObjects (set_actionClass d r st) ! i =
       (if i = r then (methodObjects st ! i)\<lparr>actionClass := Some d\<rparr> else methodObjects st ! i)"
  by (auto simp: set_actionClass_def nth_list_update)

lemma methodObjects_fold_set_actionClass:
  "length (methodObjects (fold (\<lambda>(m, r). set_actionClass d r) ms st)) = length (methodObjects st)
   \<and> (\<forall>i < length (methodObjects st).
        methodObjects (fold (\<lambda>(m, r). set_actionClass d r) ms st) ! i =
          (if i \<in> snd ` set ms then (methodObjects st ! i)\<lparr>actionClass := Some d\<rparr>
           else methodObjects st ! i))"
proof (induction ms arbitrary: st)
  case Nil
  show ?case by simp
next
  case (Cons mr ms)
  obtain m r where mr: "mr = (m, r)" by (cases mr)
  let ?st = "set_actionClass d r st"
  note ih = Cons.IH [of ?st]
  show ?case
    unfolding mr using ih
    by (auto simp: methodObjects_set_actionClass)
qed

lemma registry_fold_set_actionClass:
  "classMetadata (fold (\<lambda>(m, r). set_actionClass d r) ms st) = classMetadata st
   \<and> methodsMetadata (fold (\<lambda>(m, r). set_actionClass d r) ms st) = methodsMetadata st"
  by (induction ms arbitrary: st) (auto simp: set_actionClass_def)

lemma inspectAction_methodObjects:
  assumes "inspectAction st c = (d, st1)"
  shows "length (methodObjects st1) = length (methodObjects st)"
    and "i < length (methodObjects st) \<Longrightarrow>
      methodObjects st1 ! i =
        (if i \<in> snd ` set (case methodsMetadata st c of None \<Rightarrow> [] | Some mm \<Rightarrow> mm)
         then (methodObjects st ! i)\<lparr>actionClass := Some d\<rparr> else methodObjects st ! i)"
    and "classMetadata st1 = classMetadata st" and "methodsMetadata st1 = methodsMetadata st"
proof -
  let ?ms = "case methodsMetadata st c of None \<Rightarrow> [] | Some mm \<Rightarrow> mm"
  let ?st0 = "st\<lparr>classObjects := classObjects st @ [\<lparr>class_metadata = classMetadata st c, methods = ?ms\<rparr>]\<rparr>"
  from assms have d: "d = length (classObjects st)"
    by (auto simp: inspectAction_def Let_def)
  from assms have st1: "st1 = fold (\<lambda>(m, r). set_actionClass d r) ?ms ?st0"
    by (auto simp: inspectAction_def Let_def)
  from methodObjects_fold_set_actionClass [of d ?ms ?st0]
  show "length (methodObjects st1) = length (methodObjects st)"
    and "i < length (methodObjects st) \<Longrightarrow>
      methodObjects st1 ! i =
        (if i \<in> snd ` set ?ms then (methodObjects st ! i)\<lparr>actionClass := Some d\<rparr> else methodObjects st ! i)"
    unfolding st1 by simp_all
  from registry_fold_set_actionClass [of d ?ms ?st0]
  show "classMetadata st1 = classMetadata st" and "methodsMetadata st1 = methodsMetadata st"
    unfolding st1 by simp_all
qed

text \<open>
  Claim C8, as amended. Two inspections of the same class, one after the other, return
  two distinct, newly made descriptors; the two descriptors are equal records (the class
  metadata of the registry and the registry's method map), and the first descriptor is
  not changed by the second inspection. The method objects are not copied: both
  descriptors map each method name to the registry's own method object. An inspection
  changes nothing in a method object but its \<open>actionClass\<close>, which it sets to the
  descriptor it returns, so after the first inspection every method object of the class
  refers to the first descriptor, and after the second inspection to the second.
\<close>

theorem inspectAction_twice:
  assumes "inspectAction st c = (d1, st1)" and "inspectAction st1 c = (d2, st2)"
  shows "d1 = length (classObjects st) \<and> d2 = Suc d1
    \<and> classObjects st2 ! d1 = classObjects st2 ! d2
    \<and> classObjects st2 ! d1 = classObjects st1 ! d1
    \<and> class_metadata (classObjects st2 ! d2) = classMetadata st c
    \<and> methods (classObjects st2 ! d2) = (case methodsMetadata st c of None \<Rightarrow> [] | Some mm \<Rightarrow> mm)
    \<and> length (methodObjects st2) = length (methodObjects st)
    \<and> (\<forall>r < length (methodObjects st). \<forall>a.
          (methodObjects st1 ! r)\<lparr>actionClass := a\<rparr> = (methodObjects st ! r)\<lparr>actionClass := a\<rparr>
          \<and> (methodObjects st2 ! r)\<lparr>actionClass := a\<rparr> = (methodObjects st ! r)\<lparr>actionClass := a\<rparr>)
    \<and> (\<forall>r < length (methodObjects st). r \<in> snd ` set (methods (classObjects st2 ! d1)) \<longrightarrow>
          actionClass (methodObjects st1 ! r) = Some d1
          \<and> actionClass (methodObjects st2 ! r) = Some d2)"
proof -
  let ?ms = "case methodsMetadata st c of None \<Rightarrow> [] | Some mm \<Rightarrow> mm"
  let ?desc = "\<lparr>class_metadata = classMetadata st c, methods = ?ms\<rparr>"
  note a1 = inspectAction_result(1,2) [OF assms(1)]
  note b1 = inspectAction_methodObjects [OF assms(1)]
  note a2 = inspectAction_result(1,2) [OF assms(2)]
  note b2 = inspectAction_methodObjects [OF assms(2)]
  from a1 have d1: "d1 = length (classObjects st)" by simp
  from a1 a2 have d2: "d2 = Suc d1" by simp
  from a1 have c1: "classObjects st1 = classObjects st @ [?desc]" by simp
  from a2 b1(3,4) c1 have c2: "classObjects st2 = classObjects st @ [?desc, ?desc]" by simp
  from c1 d1 have e1: "classObjects st1 ! d1 = ?desc" by simp
  from c2 d1 have e2: "classObjects st2 ! d1 = ?desc" by (simp add: nth_append)
  from c2 d1 d2 have e3: "classObjects st2 ! d2 = ?desc" by (simp add: nth_append)
  have l: "length (methodObjects st2) = length (methodObjects st)"
    using b1(1) b2(1) by simp
  have m1: "methodObjects st1 ! r =
      (if r \<in> snd ` set ?ms then (methodObjects st ! r)\<lparr>actionClass := Some d1\<rparr> else methodObjects st ! r)"
    if "r < length (methodObjects st)" for r
    using that by (rule b1(2))
  have m2: "methodObjects st2 ! r =
      (if r \<in> snd ` set ?ms then (methodObjects st1 ! r)\<lparr>actionClass := Some d2\<rparr> else methodObjects st1 ! r)"
    if "r < length (methodObjects st)" for r
    using b2(2) [of r] that b1(1,4) by simp
  have f: "(methodObjects st1 ! r)\<lparr>actionClass := a\<rparr> = (methodObjects st ! r)\<lparr>actionClass := a\<rparr>
          \<and> (methodObjects st2 ! r)\<lparr>actionClass := a\<rparr> = (methodObjects st ! r)\<lparr>actionClass := a\<rparr>"
    if "r < length (methodObjects st)" for r a
    using m1 [OF that] m2 [OF that] by simp
  have g: "actionClass (methodObjects st1 ! r) = Some d1 \<and> actionClass (methodObjects st2 ! r) = Some d2"
    if "r < length (methodObjects st)" "r \<in> snd ` set (methods (classObjects st2 ! d1))" for r
    using m1 [OF that(1)] m2 [OF that(1)] that(2) by (simp add: e2)
  from d1 d2 e1 e2 e3 l f g show ?thesis
    by (simp only: simp_thms ActionClass.simps) blast
qed

lemma once_inspected_eq:
  "once_inspected =
     one_method_store
       \<lparr>methodObjects :=
          [\<lparr>group = ''method:C.prototype.m'', fulfills = [], dependsOn = [],
            target = PrototypeTarget ''C'', method_name = ''m'', bindsReturnValueAs = None,
            actionClass = Some 0, isStatic = False\<rparr>],
        classObjects :=
          [\<lparr>class_metadata = Some \<lparr>group = ''class:C'', fulfills = [], dependsOn = [],
              target = ClassTarget ''C''\<rparr>, methods = [(''m'', 0)]\<rparr>]\<rparr>"
  by (simp add: once_inspected_def inspectAction_def set_actionClass_def one_method_store_def Let_def)

lemma twice_inspected_eq:
  "twice_inspected =
     one_method_store
       \<lparr>methodObjects :=
          [\<lparr>group = ''method:C.prototype.m'', fulfills = [], dependsOn = [],
            target = PrototypeTarget ''C'', method_name = ''m'', bindsReturnValueAs = None,
            actionClass = Some 1, isStatic = False\<rparr>],
        classObjects :=
          [\<lparr>class_metadata = Some \<lparr>group = ''class:C'', fulfills = [], dependsOn = [],
              target = ClassTarget ''C''\<rparr>, methods = [(''m'', 0)]\<rparr>,
           \<lparr>class_metadata = Some \<lparr>group = ''class:C'', fulfills = [], dependsOn = [],
              target = ClassTarget ''C''\<rparr>, methods = [(''m'', 0)]\<rparr>]\<rparr>"
  unfolding twice_inspected_def once_inspected_eq
  by (simp add: inspectAction_def set_actionClass_def one_method_store_def Let_def)

lemma inspect_first: "inspectAction one_method_store ''C'' = (0, once_inspected)"
proof -
  have "fst (inspectAction one_method_store ''C'') = 0"
    by (simp add: inspectAction_def one_method_store_def Let_def)
  then show ?thesis
    by (simp add: once_inspected_def prod_eq_iff)
qed

lemma inspect_second: "inspectAction once_inspected ''C'' = (1, twice_inspected)"
proof -
  have "fst (inspectAction once_inspected ''C'') = 1"
    by (simp add: inspectAction_def once_inspected_eq Let_def)
  then show ?thesis
    by (simp add: twice_inspected_def prod_eq_iff)
qed

theorem inspectAction_twice_witness:
  "inspectAction one_method_store ''C'' = (0, once_inspected)
   \<and> inspectAction once_inspected ''C'' = (1, twice_inspected)
   \<and> classObjects twice_inspected ! 0 = classObjects twice_inspected ! 1
   \<and> length (methodObjects twice_inspected) = length (methodObjects one_method_store)"
proof -
  from inspectAction_twice [OF inspect_first inspect_second]
  have "classObjects twice_inspected ! 0 = classObjects twice_inspected ! 1"
    and "length (methodObjects twice_inspected) = length (methodObjects one_method_store)"
    by blast+
  with inspect_first inspect_second show ?thesis by blast
qed

text \<open>
  Claim C8 as stated fails. Class \<open>C\<close> has one method \<open>m\<close>. The first inspection returns
  descriptor 0 and the second descriptor 1; the method record that the first descriptor
  holds for \<open>m\<close> is method object 0, and after the second inspection its \<open>actionClass\<close>
  is descriptor 1: the back-reference set by the second inspection is seen through the
  record returned by the first.
\<close>

theorem inspectAction_shared_records_counterexample:
  "inspectAction one_method_store ''C'' = (0, once_inspected)
   \<and> inspectAction once_inspected ''C'' = (1, twice_inspected)
   \<and> methods (classObjects twice_inspected ! 0) = [(''m'', 0)]
   \<and> actionClass (methodObjects once_inspected ! 0) = Some 0
   \<and> actionClass (methodObjects twice_inspected ! 0) = Some 1"
proof -
  have "methods (classObjects twice_inspected ! 0) = [(''m'', 0)]"
    and "actionClass (methodObjects once_inspected ! 0) = Some 0"
    and "actionClass (methodObjects twice_inspected ! 0) = Some 1"
    by (simp_all add: once_inspected_eq twice_inspected_eq)
  with inspect_first inspect_second show ?thesis by blast
qed

section \<open>The stored metadata across calls of sortActions\<close>

lemmas sort_eval =
  sortActions_def inspectAction_def set_actionClass_def push_dependsOn_def
  addActionToGraph_def add_def exists_group_def kahn.simps new_Topo_def ready_def precedes_def
  finish_def new_ActionGraph_def Let_def

lemma sorted_with_classes_eq:
  "sorted_with_classes =
     one_method_store
       \<lparr>methodObjects :=
          [\<lparr>group = ''method:C.prototype.m'', fulfills = [], dependsOn = [''class:C''],
            target = PrototypeTarget ''C'', method_name = ''m'', bindsReturnValueAs = None,
            actionClass = Some 0, isStatic = False\<rparr>],
        classObjects :=
          [\<lparr>class_metadata = Some \<lparr>group = ''class:C'', fulfills = [], dependsOn = [],
              target = ClassTarget ''C''\<rparr>, methods = [(''m'', 0)]\<rparr>]\<rparr>"
  by (simp add: sorted_with_classes_def one_method_store_def sort_eval)

lemma sorted_with_classes_twice_eq:
  "sorted_with_classes_twice =
     one_method_store
       \<lparr>methodObjects :=
          [\<lparr>group = ''method:C.prototype.m'', fulfills = [], dependsOn = [''class:C'', ''class:C''],
            target = PrototypeTarget ''C'', method_name = ''m'', bindsReturnValueAs = None,
            actionClass = Some 1, isStatic = False\<rparr>],
        classObjects :=
          [\<lparr>class_metadata = Some \<lparr>group = ''class:C'', fulfills = [], dependsOn = [],
              target = ClassTarget ''C''\<rparr>, methods = [(''m'', 0)]\<rparr>,
           \<lparr>class_metadata = Some \<lparr>group = ''class:C'', fulfills = [], dependsOn = [],
              target = ClassTarget ''C''\<rparr>, methods = [(''m'', 0)]\<rparr>]\<rparr>"
  unfolding sorted_with_classes_twice_def sorted_with_classes_eq
  by (simp add: one_method_store_def sort_eval)

text \<open>
  Claim C9 is not met by the code. \<open>sortActions\<close> with \<open>includeClasses\<close> appends the
  group of the class to the \<open>dependsOn\<close> list of the registry's own method record, and
  does so again on every call: the stored list, empty after the decorator, is
  \<open>[class:C]\<close> after one call and \<open>[class:C, class:C]\<close> after two.
\<close>

theorem sortActions_mutates_stored_dependsOn:
  "dependsOn (methodObjects one_method_store ! 0) = []
   \<and> dependsOn (methodObjects sorted_with_classes ! 0) = [''class:C'']
   \<and> dependsOn (methodObjects sorted_with_classes_twice ! 0) = [''class:C'', ''class:C'']
   \<and> \<not> distinct (dependsOn (methodObjects sorted_with_classes_twice ! 0))"
  by (simp add: sorted_with_classes_eq sorted_with_classes_twice_eq) (simp add: one_method_store_def)

text \<open>
  Claim C3 is not met by the code. The same list \<open>[C]\<close> sorted with the same flags (no
  \<open>includeClasses\<close>, no \<open>removeKeys\<close>) gives the order \<open>m\<close> on a fresh registry and the
  order \<open>class:C, m\<close>, with a key node named after the class group, once
  \<^verbatim>\<open>sortActions([C], true)\<close> has run in between.
\<close>

theorem sortActions_depends_on_earlier_calls:
  "map_sum id actions (fst (sortActions one_method_store [''C''] False False)) = Inr [MethodNode 0]
   \<and> map_sum id actions (fst (sortActions sorted_with_classes [''C''] False False))
       = Inr [KeyNode ''class:C'', MethodNode 0]"
proof -
  have a: "map_sum id actions (fst (sortActions one_method_store [''C''] False False)) = Inr [MethodNode 0]"
    by (simp add: one_method_store_def sort_eval)
  have b: "map_sum id actions (fst (sortActions sorted_with_classes [''C''] False False))
       = Inr [KeyNode ''class:C'', MethodNode 0]"
    unfolding sorted_with_classes_eq by (simp add: one_method_store_def sort_eval)
  from a b show ?thesis by blast
qed

section \<open>The run\<close>

lemma run_loop_Cons:
  "run_loop ops st (n # ms) c =
     (case run_loop ops st [n] c of
        (Inl e, c1) \<Rightarrow> (Inl e, c1)
      | (Inr u, c1) \<Rightarrow> run_loop ops st ms c1)"
  by (cases n) (auto simp: Let_def split: sum.splits prod.splits option.splits)


text \<open>One step of the loop, by its outcome.\<close>

lemma run_loop_step_Inr:
  "run_loop ops st [n] c = (Inr u, c') \<longleftrightarrow>
     (\<exists>r k v c1 result c2.
        n = MethodNode r \<and> r < length (methodObjects st)
        \<and> instance_key st (methodObjects st ! r) = Inr k
        \<and> ctx_get ops c k = (Inr v, c1)
        \<and> invokeMethod ops v (method_name (methodObjects st ! r)) c1 = (Inr result, c2)
        \<and> c' = (case publishes (methodObjects st ! r) result of
                  None \<Rightarrow> c2
                | Some (key, x) \<Rightarrow> ctx_bind_to ops c2 key x))"
  by (cases n) (auto simp: Let_def split: sum.splits prod.splits option.splits)


lemma logged_simps:
  "ctx_get (logged ops) (c, log) k =
     (case ctx_get ops c k of
        (Inl e, c1) \<Rightarrow> (Inl e, (c1, log @ [GetFailed k e]))
      | (Inr v, c1) \<Rightarrow> (Inr v, (c1, log @ [Got k v])))"
  "invokeMethod (logged ops) v m (c, log) =
     (case invokeMethod ops v m c of
        (Inl e, c1) \<Rightarrow> (Inl e, (c1, log @ [InvokeFailed v m e]))
      | (Inr result, c1) \<Rightarrow> (Inr result, (c1, log @ [Invoked v m result])))"
  "ctx_bind_to (logged ops) (c, log) k v = (ctx_bind_to ops c k v, log @ [Bound k v])"
  by (simp_all add: logged_def)

lemma logged_step_Inr:
  assumes "run_loop (logged ops) st [n] (c, log) = (Inr u, (c', log'))"
  shows "run_loop ops st [n] c = (Inr u, c')
    \<and> (\<exists>k v result. key_of st n k \<and> log' = log @ calls st n (k, v, result))"
proof -
  from assms obtain r k v cl1 result cl2 where n: "n = MethodNode r" and r: "r < length (methodObjects st)"
    and k: "instance_key st (methodObjects st ! r) = Inr k"
    and g: "ctx_get (logged ops) (c, log) k = (Inr v, cl1)"
    and i: "invokeMethod (logged ops) v (method_name (methodObjects st ! r)) cl1 = (Inr result, cl2)"
    and e: "(c', log') = (case publishes (methodObjects st ! r) result of
                  None \<Rightarrow> cl2
                | Some (key, x) \<Rightarrow> ctx_bind_to (logged ops) cl2 key x)"
    unfolding run_loop_step_Inr by blast
  let ?m = "methodObjects st ! r"
  from g obtain c1 where g1: "ctx_get ops c k = (Inr v, c1)" and cl1: "cl1 = (c1, log @ [Got k v])"
    by (auto simp: logged_simps split: prod.splits sum.splits)
  from i obtain c2 where i1: "invokeMethod ops v (method_name ?m) c1 = (Inr result, c2)"
    and cl2: "cl2 = (c2, log @ [Got k v, Invoked v (method_name ?m) result])"
    unfolding cl1 by (auto simp: logged_simps split: prod.splits sum.splits)
  from e have c': "c' = (case publishes ?m result of None \<Rightarrow> c2 | Some (key, x) \<Rightarrow> ctx_bind_to ops c2 key x)"
    and log': "log' = log @ calls st n (k, v, result)"
    unfolding cl2 n by (auto simp: logged_simps split: option.splits)
  from n r k g1 i1 c' have "run_loop ops st [n] c = (Inr u, c')"
    unfolding run_loop_step_Inr by blast
  moreover from n r k have "key_of st n k" by simp
  ultimately show ?thesis using log' by blast
qed


lemma run_loop_logged_Inr:
  "run_loop (logged ops) st ms (c, log) = (Inr u, (c', log')) \<Longrightarrow>
     run_loop ops st ms c = (Inr u, c')
     \<and> (\<exists>outs. list_all2 (\<lambda>n out. key_of st n (fst out)) ms outs
           \<and> log' = log @ concat (map (\<lambda>(n, out). calls st n out) (zip ms outs)))"
proof (induction ms arbitrary: c log)
  case Nil
  then show ?case by simp
next
  case (Cons n ms)
  obtain r1 c1 log1 where s: "run_loop (logged ops) st [n] (c, log) = (r1, (c1, log1))"
    by (cases "run_loop (logged ops) st [n] (c, log)") auto
  from Cons.prems s run_loop_Cons [of "logged ops" st n ms "(c, log)"]
  obtain u1 where r1: "r1 = Inr u1" and rest: "run_loop (logged ops) st ms (c1, log1) = (Inr u, (c', log'))"
    by (cases r1) simp_all
  from logged_step_Inr [OF s [unfolded r1]] obtain k v result
    where a: "run_loop ops st [n] c = (Inr u1, c1)" and ko: "key_of st n k"
      and l1: "log1 = log @ calls st n (k, v, result)"
    by blast
  from Cons.IH [OF rest] obtain outs where b: "run_loop ops st ms c1 = (Inr u, c')"
    and o: "list_all2 (\<lambda>n out. key_of st n (fst out)) ms outs"
    and l: "log' = log1 @ concat (map (\<lambda>(n, out). calls st n out) (zip ms outs))"
    by blast
  from a b have "run_loop ops st (n # ms) c = (Inr u, c')"
    using run_loop_Cons [of ops st n ms c] by simp
  moreover from ko o have "list_all2 (\<lambda>n out. key_of st n (fst out)) (n # ms) ((k, v, result) # outs)"
    by simp
  moreover from l l1 have "log' = log @ concat (map (\<lambda>(n, out). calls st n out) (zip (n # ms) ((k, v, result) # outs)))"
    by simp
  ultimately show ?case by blast
qed



section \<open>The run: an example\<close>

lemma run_sorted:
  "sortActions run_store [''L'', ''T''] True False = (Inr run_graph, run_store_sorted)"
  "actions run_graph = [ClassNode 0, ClassNode 1, MethodNode 1, KeyNode ''tracingId'', MethodNode 0]"
  "methodObjects run_store_sorted =
     [\<lparr>group = ''l'', fulfills = [], dependsOn = [''tracingId'', ''class:L''], target = PrototypeTarget ''L'',
       method_name = ''l'', bindsReturnValueAs = None, actionClass = Some 0, isStatic = False\<rparr>,
      \<lparr>group = ''t'', fulfills = [''tracingId''], dependsOn = [''class:T''], target = PrototypeTarget ''T'',
       method_name = ''t'', bindsReturnValueAs = Some ''tracingId'', actionClass = Some 1,
       isStatic = False\<rparr>]"
  "classObjects run_store_sorted =
     [\<lparr>class_metadata = Some \<lparr>group = ''class:L'', fulfills = [], dependsOn = [], target = ClassTarget ''L''\<rparr>,
       methods = [(''l'', 0)]\<rparr>,
      \<lparr>class_metadata = Some \<lparr>group = ''class:T'', fulfills = [], dependsOn = [], target = ClassTarget ''T''\<rparr>,
       methods = [(''t'', 1)]\<rparr>]"
proof -
  have e: "fst (sortActions run_store [''L'', ''T''] True False)
      = Inr (projr (fst (sortActions run_store [''L'', ''T''] True False)))"
    by (simp add: run_store_def sort_eval)
  then show "sortActions run_store [''L'', ''T''] True False = (Inr run_graph, run_store_sorted)"
    by (simp add: run_graph_def run_store_sorted_def prod_eq_iff)
  show "actions run_graph = [ClassNode 0, ClassNode 1, MethodNode 1, KeyNode ''tracingId'', MethodNode 0]"
    by (simp add: run_graph_def run_store_def sort_eval)
  show "methodObjects run_store_sorted =
     [\<lparr>group = ''l'', fulfills = [], dependsOn = [''tracingId'', ''class:L''], target = PrototypeTarget ''L'',
       method_name = ''l'', bindsReturnValueAs = None, actionClass = Some 0, isStatic = False\<rparr>,
      \<lparr>group = ''t'', fulfills = [''tracingId''], dependsOn = [''class:T''], target = PrototypeTarget ''T'',
       method_name = ''t'', bindsReturnValueAs = Some ''tracingId'', actionClass = Some 1,
       isStatic = False\<rparr>]"
    by (simp add: run_store_sorted_def run_store_def sort_eval)
  show "classObjects run_store_sorted =
     [\<lparr>class_metadata = Some \<lparr>group = ''class:L'', fulfills = [], dependsOn = [], target = ClassTarget ''L''\<rparr>,
       methods = [(''l'', 0)]\<rparr>,
      \<lparr>class_metadata = Some \<lparr>group = ''class:T'', fulfills = [], dependsOn = [], target = ClassTarget ''T''\<rparr>,
       methods = [(''t'', 1)]\<rparr>]"
    by (simp add: run_store_sorted_def run_store_def sort_eval)
qed


lemma publishes_iff:
  "publishes m result = Some (k, x) \<longleftrightarrow>
     result = Some x \<and> bindsReturnValueAs m = Some k \<and> k \<noteq> []"
  by (auto simp: publishes_def split: option.splits if_splits)

lemma buildGraph_cached: "actionGraph s = Some ag \<Longrightarrow> buildGraph s st = (Inr ag, s, st)"
  by (simp add: buildGraph_def)

lemma buildGraph_first:
  "actionGraph s = None \<Longrightarrow> sortActions st (actionClasses s) True False = (Inr ag, st1) \<Longrightarrow>
     buildGraph s st = (Inr ag, s\<lparr>actionGraph := Some ag\<rparr>, st1)"
  by (simp add: buildGraph_def)

section \<open>Claims about the run\<close>

text \<open>
  Claim C6. \<open>run\<close> takes the order from the cached graph, or computes it with
  \<open>sortActions(classes, true, false)\<close> and caches it when there is none, and runs the loop
  over the method-bearing nodes of that order. When the loop completes, the calls it has
  made on the binding store are, for each of these nodes in order and one node after the
  other: the lookup of the instance under the key of the node's class, the invocation of
  the node's method on that instance, and then a binding of the returned value exactly
  when the value is not \<open>undefined\<close> and the method record has a non-empty
  \<open>bindsReturnValueAs\<close>, under that key; nothing else is called.
\<close>

theorem run_invokes_in_order:
  "(actionGraph s = Some ag \<longrightarrow>
      run ops s st =
        (case run_loop ops st (filter (has_method st) (actions ag)) (registry s) of
           (r, c) \<Rightarrow> (r, s\<lparr>registry := c\<rparr>, st)))
   \<and> (actionGraph s = None \<and> sortActions st (actionClasses s) True False = (Inr ag, st1) \<longrightarrow>
      run ops s st =
        (case run_loop ops st1 (filter (has_method st1) (actions ag)) (registry s) of
           (r, c) \<Rightarrow> (r, s\<lparr>actionGraph := Some ag, registry := c\<rparr>, st1)))
   \<and> (run_loop (logged ops) st ms (c, log) = (Inr u, (c', log')) \<longrightarrow>
      run_loop ops st ms c = (Inr u, c')
      \<and> (\<exists>outs. list_all2 (\<lambda>n out. key_of st n (fst out)) ms outs
            \<and> log' = log @ concat (map (\<lambda>(n, out). calls st n out) (zip ms outs))))
   \<and> (publishes m result = Some (k, x) \<longleftrightarrow>
        result = Some x \<and> bindsReturnValueAs m = Some k \<and> k \<noteq> [])"
proof (intro conjI impI)
  assume "actionGraph s = Some ag"
  then show "run ops s st =
        (case run_loop ops st (filter (has_method st) (actions ag)) (registry s) of
           (r, c) \<Rightarrow> (r, s\<lparr>registry := c\<rparr>, st))"
    by (simp add: run_def buildGraph_cached)
next
  assume "actionGraph s = None \<and> sortActions st (actionClasses s) True False = (Inr ag, st1)"
  then show "run ops s st =
        (case run_loop ops st1 (filter (has_method st1) (actions ag)) (registry s) of
           (r, c) \<Rightarrow> (r, s\<lparr>actionGraph := Some ag, registry := c\<rparr>, st1))"
    by (simp add: run_def buildGraph_first split: prod.splits)
next
  assume a: "run_loop (logged ops) st ms (c, log) = (Inr u, (c', log'))"
  from run_loop_logged_Inr [OF a] show "run_loop ops st ms c = (Inr u, c')"
    and "\<exists>outs. list_all2 (\<lambda>n out. key_of st n (fst out)) ms outs
            \<and> log' = log @ concat (map (\<lambda>(n, out). calls st n out) (zip ms outs))"
    by blast+
next
  show "publishes m result = Some (k, x) \<longleftrightarrow>
        result = Some x \<and> bindsReturnValueAs m = Some k \<and> k \<noteq> []"
    by (rule publishes_iff)
qed

lemma run_example_nodes:
  "filter (has_method run_store_sorted) (actions run_graph) = [MethodNode 1, MethodNode 0]"
  by (simp add: run_sorted(2,3))

lemma run_example_logged:
  "run_loop (logged run_ops) run_store_sorted [MethodNode 1, MethodNode 0] ([], []) =
     (Inr (), ([(''tracingId'', ''id1'')],
        [Got ''actions.T'' ''T'', Invoked ''T'' ''t'' (Some ''id1''), Bound ''tracingId'' ''id1'',
         Got ''actions.L'' ''L'', Invoked ''L'' ''l'' None]))"
  by (simp add: run_sorted(3,4) instance_key_def publishes_def run_ops_def logged_def)

theorem run_invokes_in_order_witness:
  "run run_ops run_seq run_store =
     (Inr (), run_seq\<lparr>actionGraph := Some run_graph, registry := [(''tracingId'', ''id1'')]\<rparr>,
      run_store_sorted)
   \<and> run_loop (logged run_ops) run_store_sorted [MethodNode 1, MethodNode 0] ([], []) =
     (Inr (), ([(''tracingId'', ''id1'')],
        [Got ''actions.T'' ''T'', Invoked ''T'' ''t'' (Some ''id1''), Bound ''tracingId'' ''id1'',
         Got ''actions.L'' ''L'', Invoked ''L'' ''l'' None]))
   \<and> run_loop run_ops run_store_sorted [MethodNode 1, MethodNode 0] [] =
     (Inr (), [(''tracingId'', ''id1'')])"
proof -
  have h: "actionGraph run_seq = None
      \<and> sortActions run_store (actionClasses run_seq) True False = (Inr run_graph, run_store_sorted)"
    by (simp add: run_seq_def run_sorted(1))
  have l: "run_loop run_ops run_store_sorted [MethodNode 1, MethodNode 0] [] =
     (Inr (), [(''tracingId'', ''id1'')])"
    by (rule run_invokes_in_order [THEN conjunct2, THEN conjunct2, THEN conjunct1, THEN mp,
          THEN conjunct1, OF run_example_logged])
  have "run run_ops run_seq run_store =
        (case run_loop run_ops run_store_sorted (filter (has_method run_store_sorted) (actions run_graph))
                (registry run_seq) of
           (r, c) \<Rightarrow> (r, run_seq\<lparr>actionGraph := Some run_graph, registry := c\<rparr>, run_store_sorted))"
    by (rule run_invokes_in_order [THEN conjunct2, THEN conjunct1, THEN mp, OF h])
  then have r: "run run_ops run_seq run_store =
     (Inr (), run_seq\<lparr>actionGraph := Some run_graph, registry := [(''tracingId'', ''id1'')]\<rparr>,
      run_store_sorted)"
    unfolding run_example_nodes using l by (simp add: run_seq_def)
  from r run_example_logged l show ?thesis by blast
qed




section \<open>The decorator, and the orders expected by the package's unit tests\<close>

lemma populateActionMetadata_fields:
  "bindsReturnValueAs (populateActionMetadata a ijs) = bindsReturnValueAs (a :: ActionMethod)"
  "fulfills (populateActionMetadata a ijs)
     = dedup_first_seen (map strip_qualifier (map bindingKey (filter is_setter ijs) @ fulfills a))"
  "dependsOn (populateActionMetadata a ijs)
     = dedup_first_seen
         (map strip_qualifier (map bindingKey (filter (\<lambda>p. \<not> is_setter p) ijs) @ dependsOn a))"
  by (simp_all add: populateActionMetadata_def Let_def normalizeKeys_Some)

text \<open>
  A method record built by the decorator never has the empty string as its
  \<^verbatim>\<open>bindsReturnValueAs\<close>, and the key it binds is, up to its qualifier, one of the keys the
  record fulfills: for the records of the decorator, the test \<^verbatim>\<open>m.bindsReturnValueAs\<close> of
  \<^verbatim>\<open>run\<close> asks whether the field is present.
\<close>

lemma action_method_bindsReturnValueAs:
  assumes "bindsReturnValueAs (fst (action_method meta tgt m injections)) = Some k"
  shows "k \<noteq> []
    \<and> strip_qualifier k \<in> set (fulfills (fst (action_method meta tgt m injections)))"
  using assms
  by (auto simp: action_method_def Let_def populateActionMetadata_fields truthy_def
      set_dedup_first_seen split: option.splits Target.splits if_splits prod.splits)

text \<open>The key lists of a record are free of duplicates when the decorator has built it.\<close>

lemma action_method_distinct:
  "distinct (fulfills (fst (action_method meta tgt m injections))) \<and>
   distinct (dependsOn (fst (action_method meta tgt m injections)))"
  by (auto simp: action_method_def Let_def populateActionMetadata_fields
      distinct_dedup_first_seen split: option.splits Target.splits if_splits prod.splits)

text \<open>
  What a method decoration leaves of its argument: when the argument has a \<^verbatim>\<open>fulfills\<close>
  array and a non-empty \<^verbatim>\<open>bindsReturnValueAs\<close>, that key has been appended to the array;
  otherwise the argument is as it was.
\<close>

lemma action_method_meta_after:
  "snd (action_method meta tgt m injections) =
     (case meta of
        None \<Rightarrow> None
      | Some mt \<Rightarrow>
          (case (truthy (opt_bindsReturnValueAs mt), opt_fulfills mt) of
             (Some k, Some f) \<Rightarrow> Some (mt\<lparr>opt_fulfills := Some (f @ [k])\<rparr>)
           | _ \<Rightarrow> Some mt))"
  by (auto simp: action_method_def Let_def meta_field_def
      split: option.splits Target.splits prod.splits)

text \<open>
  The records of \<open>test_classes\<close> are those that the decorator builds for the decorator
  applications of the test file; among them are the records that the tests
  \<open>captures method level action metadata\<close> and \<open>captures class level action metadata\<close>
  expect.
\<close>

lemma test_classes_decorated:
  "methodObjects test_classes =
     [fst (action_method (Some (no_options\<lparr>opt_dependsOn := Some [''http.request'']\<rparr>))
        (PrototypeTarget ''StopWatch'') ''start'' [inject_setter ''startTime'']),
      fst (action_method (Some (no_options\<lparr>opt_bindsReturnValueAs := Some ''duration'',
                                         opt_dependsOn := Some [''invocation'']\<rparr>))
        (PrototypeTarget ''StopWatch'') ''stop'' [inject ''startTime'']),
      fst (action_method (Some (no_options\<lparr>opt_dependsOn := Some [''invocation'']\<rparr>))
        (PrototypeTarget ''Logger'') ''log'' [inject ''tracingId'', inject ''duration'']),
      fst (action_method (Some (no_options\<lparr>opt_bindsReturnValueAs := Some ''tracingId''\<rparr>))
        (PrototypeTarget ''Tracing'') ''setupTracingId'' [inject ''http.request'']),
      fst (action_method None (PrototypeTarget ''HttpServer'') ''createRequest''
        [inject_setter ''http.request'']),
      fst (action_method (Some (no_options\<lparr>opt_bindsReturnValueAs := Some ''result'',
                                         opt_fulfills := Some [''invocation''],
                                         opt_dependsOn := Some [''tracingId'']\<rparr>))
        (PrototypeTarget ''MethodInvoker'') ''invoke'' [])]"
  "classMetadata test_classes ''StopWatch'' =
     Some (action_class (Some (no_options\<lparr>opt_group := Some ''timer-group''\<rparr>))
       (ClassTarget ''StopWatch'') [])"
  "classMetadata test_classes ''Logger'' =
     Some (action_class (Some (no_options\<lparr>opt_fulfills := Some [''logging'']\<rparr>))
       (ClassTarget ''Logger'') [inject ''log.prefix'', inject ''log.level''])"
  "classMetadata test_classes ''Tracing'' = Some (action_class None (ClassTarget ''Tracing'') [])"
  "classMetadata test_classes ''HttpServer'' =
     Some (action_class None (ClassTarget ''HttpServer'') [])"
  "classMetadata test_classes ''MethodInvoker'' =
     Some (action_class None (ClassTarget ''MethodInvoker'') [])"
  by code_simp+

text \<open>The record that the test \<open>captures static method level action metadata\<close> expects.\<close>

lemma test_static_method:
  "fst (action_method None (ClassTarget ''MyDummyAction'') ''test'' [inject ''foo'']) =
     \<lparr>group = ''method:MyDummyAction.test'', fulfills = [], dependsOn = [''foo''],
      target = ClassTarget ''MyDummyAction'', method_name = ''test'',
      bindsReturnValueAs = None, actionClass = None, isStatic = True\<rparr>"
  by code_simp

text \<open>
  The test \<open>sorts action classes\<close>: the groups of the nodes of
  \<^verbatim>\<open>sortActionClasses([Logger, StopWatch, HttpServer, Tracing])\<close>, in the order that the
  test expects. The sort of the model, on the graph that the code builds, produces the
  order that the sort of the package \<^verbatim>\<open>topo\<close> produced for the authors of the test.
\<close>

lemma test_sorts_action_classes:
  "map_sum id (\<lambda>ag. map item_group (items (graph ag)))
     (sortActionClasses test_classes [''Logger'', ''StopWatch'', ''HttpServer'', ''Tracing''] False)
   = Inr [''log.prefix'', ''log.level'', ''class:Logger'', ''logging'', ''timer-group'',
          ''class:HttpServer'', ''class:Tracing'']"
  by code_simp

text \<open>The test \<open>sorts action methods\<close>, in the same way.\<close>

lemma test_sorts_action_methods:
  "map_sum id (\<lambda>ag. map item_group (items (graph ag)))
     (fst (sortActions test_classes
        [''Logger'', ''StopWatch'', ''HttpServer'', ''MethodInvoker'', ''Tracing''] False False))
   = Inr [''method:HttpServer.prototype.createRequest'', ''http.request'',
          ''method:StopWatch.prototype.start'', ''startTime'',
          ''method:Tracing.prototype.setupTracingId'', ''tracingId'',
          ''method:MethodInvoker.prototype.invoke'', ''invocation'',
          ''method:StopWatch.prototype.stop'', ''duration'',
          ''method:Logger.prototype.log'', ''result'']"
  by code_simp

text \<open>
  The test \<open>bind action classes\<close>: without the key nodes, the five classes come out in
  the order in which they were given.
\<close>

lemma test_bind_action_classes:
  "map_sum id actions
     (sortActionClasses test_classes
        [''Logger'', ''StopWatch'', ''HttpServer'', ''MethodInvoker'', ''Tracing''] True)
   = Inr (map ClassMetadataNode
        [''Logger'', ''StopWatch'', ''HttpServer'', ''MethodInvoker'', ''Tracing''])"
  by code_simp

text \<open>
  The test \<open>generates a DOT based dependency graph for actions\<close>: the items of the
  graph of \<^verbatim>\<open>sortActions(classes, true, true)\<close> in their order, each with its group, the
  groups it precedes and the groups it follows, as the expected text lists them. Every
  method follows the group of its class, which the call has appended to the stored
  \<^verbatim>\<open>dependsOn\<close> of the method.
\<close>

lemma test_dot_graph:
  "map_sum id (\<lambda>ag. map (\<lambda>i. (item_group i, before i, after i)) (items (graph ag)))
     (fst (sortActions test_classes
        [''Logger'', ''StopWatch'', ''HttpServer'', ''MethodInvoker'', ''Tracing''] True True))
   = Inr [(''log.prefix'', [], []),
          (''log.level'', [], []),
          (''class:Logger'', [''logging''], [''log.prefix'', ''log.level'']),
          (''logging'', [], []),
          (''timer-group'', [], []),
          (''class:HttpServer'', [], []),
          (''method:HttpServer.prototype.createRequest'', [''http.request''],
             [''class:HttpServer'']),
          (''http.request'', [], []),
          (''method:StopWatch.prototype.start'', [''startTime''],
             [''http.request'', ''timer-group'']),
          (''startTime'', [], []),
          (''class:MethodInvoker'', [], []),
          (''class:Tracing'', [], []),
          (''method:Tracing.prototype.setupTracingId'', [''tracingId''],
             [''http.request'', ''class:Tracing'']),
          (''tracingId'', [], []),
          (''method:MethodInvoker.prototype.invoke'', [''invocation'', ''result''],
             [''tracingId'', ''class:MethodInvoker'']),
          (''invocation'', [], []),
          (''method:StopWatch.prototype.stop'', [''duration''],
             [''startTime'', ''invocation'', ''timer-group'']),
          (''duration'', [], []),
          (''method:Logger.prototype.log'', [],
             [''tracingId'', ''duration'', ''invocation'', ''class:Logger'']),
          (''result'', [], [])]"
  by code_simp

text \<open>
  The same call made a second time, as the test \<open>creates a sequence of actions\<close> makes
  it after the previous test: every method now follows the group of its class twice.
  The text that the previous test expects is produced by the first such call only.
\<close>

lemma test_dot_graph_second_call:
  "map_sum id
     (\<lambda>ag. map (\<lambda>i. (item_group i, after i)) (filter (\<lambda>i. has_method test_classes (node i)) (items (graph ag))))
     (fst (sortActions test_classes_sorted
        [''Logger'', ''StopWatch'', ''HttpServer'', ''MethodInvoker'', ''Tracing''] True True))
   = Inr [(''method:HttpServer.prototype.createRequest'',
             [''class:HttpServer'', ''class:HttpServer'']),
          (''method:StopWatch.prototype.start'',
             [''http.request'', ''timer-group'', ''timer-group'']),
          (''method:Tracing.prototype.setupTracingId'',
             [''http.request'', ''class:Tracing'', ''class:Tracing'']),
          (''method:MethodInvoker.prototype.invoke'',
             [''tracingId'', ''class:MethodInvoker'', ''class:MethodInvoker'']),
          (''method:StopWatch.prototype.stop'',
             [''startTime'', ''invocation'', ''timer-group'', ''timer-group'']),
          (''method:Logger.prototype.log'',
             [''tracingId'', ''duration'', ''invocation'', ''class:Logger'', ''class:Logger''])]"
  by code_simp

text \<open>
  The records of \<open>one_method_store\<close> are those that the decorator builds for a class \<open>C\<close>
  with one method \<open>m\<close>, both decorated without arguments.
\<close>

lemma one_method_store_decorated:
  "methodObjects one_method_store = [fst (action_method None (PrototypeTarget ''C'') ''m'' [])]"
  "classMetadata one_method_store ''C'' = Some (action_class None (ClassTarget ''C'') [])"
  by code_simp+

end
